theory Spec2Isabelle
  imports Main "HOL-Library.Char_ord" "HOL-Library.List_Lexorder"
begin

unbundle bit_operations_syntax

section \<open>gogo/zip: Download, Archive and Unarchive over a model of the file system\<close>

text \<open>
  The package under verification is \<^verbatim>\<open>zip\<close> (functions \<^verbatim>\<open>Download\<close>, \<^verbatim>\<open>Archive\<close>,
  \<^verbatim>\<open>createArchive\<close>, \<^verbatim>\<open>Unarchive\<close>).  Its functions are embedded as HOL functions
  that take the state of the file system and return the new state together with the
  returned \<^verbatim>\<open>error\<close> (\<open>None\<close> is Go's \<^verbatim>\<open>nil\<close>).

  The Go standard library that the package calls (\<^verbatim>\<open>path/filepath\<close>, \<^verbatim>\<open>strings\<close>,
  \<^verbatim>\<open>os\<close>, \<^verbatim>\<open>archive/zip\<close>, \<^verbatim>\<open>net/url\<close>, \<^verbatim>\<open>net/http\<close>) is modelled after its documented
  behaviour on a Unix host (path separator \<open>/\<close>), for regular files and directories.
  Strings are byte strings.
\<close>

subsection \<open>Package strings\<close>

definition strings_HasPrefix :: "string \<Rightarrow> string \<Rightarrow> bool" where
  "strings_HasPrefix s pre = (take (length pre) s = pre)"

definition strings_HasSuffix :: "string \<Rightarrow> string \<Rightarrow> bool" where
  "strings_HasSuffix s suf = (length suf \<le> length s \<and> drop (length s - length suf) s = suf)"

definition strings_TrimPrefix :: "string \<Rightarrow> string \<Rightarrow> string" where
  "strings_TrimPrefix s pre = (if strings_HasPrefix s pre then drop (length pre) s else s)"

subsection \<open>Package path/filepath (Unix)\<close>

definition Separator :: char where
  "Separator = CHR ''/''"

text \<open>The elements of a path: the pieces between separators (some may be empty).\<close>

fun split_elems :: "string \<Rightarrow> string list" where
  "split_elems [] = [[]]"
| "split_elems (c # cs) =
     (if c = Separator then [] # split_elems cs
      else (case split_elems cs of
              [] \<Rightarrow> [[c]]
            | e # es \<Rightarrow> (c # e) # es))"

fun join_elems :: "string list \<Rightarrow> string" where
  "join_elems [] = []"
| "join_elems [e] = e"
| "join_elems (e # e' # es) = e @ Separator # join_elems (e' # es)"

text \<open>
  The loop of \<^verbatim>\<open>filepath.Clean\<close>, element by element.  \<open>out\<close> is the output written
  so far, last element first.  An empty element and \<open>.\<close> are dropped; \<open>..\<close> removes the
  last real element of the output, is dropped at the root of a rooted path, and is kept
  at the front of a path that is not rooted.
\<close>

fun clean_elems :: "bool \<Rightarrow> string list \<Rightarrow> string list \<Rightarrow> string list" where
  "clean_elems rooted out [] = rev out"
| "clean_elems rooted out (e # es) =
     (if e = [] \<or> e = ''.'' then clean_elems rooted out es
      else if e = ''..'' then
        (case out of
           [] \<Rightarrow> if rooted then clean_elems rooted [] es
                 else clean_elems rooted [''..''] es
         | t # ts \<Rightarrow> if t = ''..'' then clean_elems rooted (''..'' # out) es
                     else clean_elems rooted ts es)
      else clean_elems rooted (e # out) es)"

definition filepath_Clean :: "string \<Rightarrow> string" where
  "filepath_Clean path =
     (if path = [] then ''.''
      else let rooted = (hd path = Separator);
               out = (if rooted then [Separator] else []) @
                     join_elems (clean_elems rooted [] (split_elems path))
           in if out = [] then ''.'' else out)"

text \<open>
  \<^verbatim>\<open>filepath.Join\<close>: empty leading elements are ignored, the rest is joined with the
  separator and cleaned; with no non-empty element the result is the empty string.
\<close>

definition filepath_Join :: "string list \<Rightarrow> string" where
  "filepath_Join elem =
     (case dropWhile (\<lambda>e. e = []) elem of
        [] \<Rightarrow> []
      | es \<Rightarrow> filepath_Clean (join_elems es))"

definition filepath_ToSlash :: "string \<Rightarrow> string" where
  "filepath_ToSlash path =
     (if Separator = CHR ''/'' then path
      else map (\<lambda>c. if c = Separator then CHR ''/'' else c) path)"

definition strip_trailing_slashes :: "string \<Rightarrow> string" where
  "strip_trailing_slashes path = rev (dropWhile (\<lambda>c. c = Separator) (rev path))"

definition last_elem :: "string \<Rightarrow> string" where
  "last_elem path = rev (takeWhile (\<lambda>c. c \<noteq> Separator) (rev path))"

definition filepath_Base :: "string \<Rightarrow> string" where
  "filepath_Base path =
     (if path = [] then ''.''
      else let p = last_elem (strip_trailing_slashes path)
           in if p = [] then [Separator] else p)"

definition filepath_Dir :: "string \<Rightarrow> string" where
  "filepath_Dir path = filepath_Clean (rev (dropWhile (\<lambda>c. c \<noteq> Separator) (rev path)))"

subsection \<open>Errors\<close>

datatype errno = ENOENT | ENOTDIR | EISDIR | EACCES

text \<open>
  The values of Go's \<^verbatim>\<open>error\<close> that the package can return.  \<open>ErrTargetEmpty\<close> and
  \<open>ErrSourceEmpty\<close> are the two \<^verbatim>\<open>fmt.Errorf\<close> values of \<^verbatim>\<open>Archive\<close>;
  \<open>PathError op path errno\<close> is \<^verbatim>\<open>*os.PathError\<close>; \<open>UrlError op url msg\<close> is
  \<^verbatim>\<open>*url.Error\<close>; \<open>NilFileInfo\<close> stands for the panic of a nil \<^verbatim>\<open>os.FileInfo\<close>.
\<close>

datatype error =
    ErrTargetEmpty
  | ErrSourceEmpty
  | PathError string string errno
  | ZipErrFormat
  | ZipErrLongName
  | ZipErrWriteToDir
  | UrlError string string string
  | HttpError string
  | NilFileInfo

fun os_IsNotExist :: "error \<Rightarrow> bool" where
  "os_IsNotExist (PathError op path ENOENT) = True"
| "os_IsNotExist e = False"

subsection \<open>The file system\<close>

text \<open>
  A file holds plain bytes or a well-formed zip container; the byte encoding of the
  container and the deflate compression are the library's and are not modelled: a
  container is the list of its entries, each a header and the (decompressed) content.
  A file of plain bytes is not a valid zip file.
\<close>

datatype compression = Store | Deflate

record zheader =
  h_Name :: string
  h_perm :: nat
  h_dir :: bool
  h_Method :: compression

datatype fdata = Bytes string | Zip "(zheader \<times> fdata) list"

text \<open>
  A node is a regular file or a directory with its permission bits.  Of the permission
  checks of the kernel only one is modelled: opening a file or a directory for reading
  needs the owner's read bit (\<open>0400\<close>, decimal 256).  The write bit (\<open>0200\<close>) and the
  search bit (\<open>0100\<close>) are not checked by the operations of the model; statements that
  would need them in the kernel ask for them as hypotheses.
\<close>

datatype node = File nat fdata | Dir nat "(string \<times> node) list"

record filesys =
  root :: node
  cwd :: "string list"
  umask :: nat

definition owner_read :: "nat \<Rightarrow> bool" where
  "owner_read m = ((m div 256) mod 2 = 1)"

definition owner_write :: "nat \<Rightarrow> bool" where
  "owner_write m = ((m div 128) mod 2 = 1)"

definition owner_search :: "nat \<Rightarrow> bool" where
  "owner_search m = ((m div 64) mod 2 = 1)"

definition owner_full :: "nat \<Rightarrow> bool" where
  "owner_full m = (owner_read m \<and> owner_write m \<and> owner_search m)"

fun node_IsDir :: "node \<Rightarrow> bool" where
  "node_IsDir (Dir m es) = True"
| "node_IsDir (File m d) = False"

fun node_perm :: "node \<Rightarrow> nat" where
  "node_perm (Dir m es) = m"
| "node_perm (File m d) = m"

fun lookup :: "node \<Rightarrow> string list \<Rightarrow> node option" where
  "lookup n [] = Some n"
| "lookup (File m d) (c # cs) = None"
| "lookup (Dir m es) (c # cs) =
     (case map_of es c of None \<Rightarrow> None | Some ch \<Rightarrow> lookup ch cs)"

fun set_child :: "string \<Rightarrow> node \<Rightarrow> (string \<times> node) list \<Rightarrow> (string \<times> node) list" where
  "set_child c new [] = []"
| "set_child c new ((k, v) # es) =
     (if k = c then (k, new) # es else (k, v) # set_child c new es)"

text \<open>
  \<open>store r loc new\<close> puts \<open>new\<close> at the location \<open>loc\<close>: it replaces the node there,
  or adds an entry to the parent directory when the parent exists and has none.
\<close>

fun store :: "node \<Rightarrow> string list \<Rightarrow> node \<Rightarrow> node" where
  "store n [] new = new"
| "store (File m d) (c # cs) new = File m d"
| "store (Dir m es) (c # cs) new =
     (case map_of es c of
        None \<Rightarrow> if cs = [] then Dir m (es @ [(c, new)]) else Dir m es
      | Some ch \<Rightarrow> Dir m (set_child c (store ch cs new) es))"

text \<open>
  Path resolution, as the kernel does it: from the root for a rooted path and from the
  working directory otherwise, element by element; every element is looked up in a
  directory that must exist.  The result is the location the path names (a list of
  names from the root); the last element itself may be missing.
\<close>

definition step :: "string list \<Rightarrow> string \<Rightarrow> string list" where
  "step cur e =
     (if e = [] \<or> e = ''.'' then cur
      else if e = ''..'' then butlast cur
      else cur @ [e])"

fun namei_from :: "node \<Rightarrow> string list \<Rightarrow> string list \<Rightarrow> errno + string list" where
  "namei_from r cur [] = Inr cur"
| "namei_from r cur (e # es) =
     (case lookup r cur of
        None \<Rightarrow> Inl ENOENT
      | Some (File m d) \<Rightarrow> Inl ENOTDIR
      | Some (Dir m ch) \<Rightarrow> namei_from r (step cur e) es)"

definition start_dir :: "filesys \<Rightarrow> string \<Rightarrow> string list" where
  "start_dir fs path = (if hd path = Separator then [] else cwd fs)"

definition namei :: "filesys \<Rightarrow> string \<Rightarrow> errno + string list" where
  "namei fs path =
     (if path = [] then Inl ENOENT
      else namei_from (root fs) (start_dir fs path) (split_elems path))"

subsection \<open>Package os\<close>

definition stat_node :: "string \<Rightarrow> filesys \<Rightarrow> string \<Rightarrow> error + node" where
  "stat_node op fs path =
     (case namei fs path of
        Inl e \<Rightarrow> Inl (PathError op path e)
      | Inr loc \<Rightarrow>
          (case lookup (root fs) loc of
             None \<Rightarrow> Inl (PathError op path ENOENT)
           | Some n \<Rightarrow> Inr n))"

definition os_Stat :: "filesys \<Rightarrow> string \<Rightarrow> error + node" where
  "os_Stat = stat_node ''stat''"

definition os_Lstat :: "filesys \<Rightarrow> string \<Rightarrow> error + node" where
  "os_Lstat = stat_node ''lstat''"

text \<open>\<^verbatim>\<open>os.Open\<close>: the handle is the node that was opened.\<close>

definition os_Open :: "filesys \<Rightarrow> string \<Rightarrow> error + node" where
  "os_Open fs path =
     (case stat_node ''open'' fs path of
        Inl e \<Rightarrow> Inl e
      | Inr n \<Rightarrow> if owner_read (node_perm n) then Inr n
                 else Inl (PathError ''open'' path EACCES))"

text \<open>Reading an open handle to its end, as \<^verbatim>\<open>io.Copy\<close> does with its source.\<close>

fun read_all :: "string \<Rightarrow> node \<Rightarrow> error + fdata" where
  "read_all path (File m d) = Inr d"
| "read_all path (Dir m es) = Inl (PathError ''read'' path EISDIR)"

definition apply_umask :: "filesys \<Rightarrow> nat \<Rightarrow> nat" where
  "apply_umask fs perm = perm - (perm AND umask fs)"

text \<open>
  \<^verbatim>\<open>os.Create\<close> opens with \<^verbatim>\<open>O_RDWR|O_CREATE|O_TRUNC\<close> and mode \<open>0666\<close> (decimal
  438): an existing file is truncated, a missing one is created in its directory.  The
  handle is the location of the file.
\<close>

definition os_Create :: "filesys \<Rightarrow> string \<Rightarrow> error + (filesys \<times> string list)" where
  "os_Create fs path =
     (case namei fs path of
        Inl e \<Rightarrow> Inl (PathError ''open'' path e)
      | Inr loc \<Rightarrow>
          (case lookup (root fs) loc of
             Some (Dir m es) \<Rightarrow> Inl (PathError ''open'' path EISDIR)
           | Some (File m d) \<Rightarrow>
               Inr (fs\<lparr>root := store (root fs) loc (File m (Bytes []))\<rparr>, loc)
           | None \<Rightarrow>
               Inr (fs\<lparr>root := store (root fs) loc (File (apply_umask fs 438) (Bytes []))\<rparr>,
                    loc)))"

text \<open>Writing the whole content of the file behind a handle.\<close>

definition write_file :: "filesys \<Rightarrow> string list \<Rightarrow> fdata \<Rightarrow> filesys" where
  "write_file fs loc d =
     (case lookup (root fs) loc of
        Some (File m old) \<Rightarrow> fs\<lparr>root := store (root fs) loc (File m d)\<rparr>
      | _ \<Rightarrow> fs)"

text \<open>
  \<^verbatim>\<open>os.MkdirAll\<close> creates the directory named by the path and every missing parent,
  all with the same permission bits, and succeeds when the directory exists already; it
  fails when an element of the path is a regular file.  Directories made before a
  failure stay.  (The \<open>Path\<close> of the error is given as the path asked for.)
\<close>

fun mkdir_from :: "filesys \<Rightarrow> string list \<Rightarrow> string list \<Rightarrow> nat \<Rightarrow> filesys \<times> errno option" where
  "mkdir_from fs cur [] perm = (fs, None)"
| "mkdir_from fs cur (e # es) perm =
     (let nxt = step cur e in
      case lookup (root fs) nxt of
        Some (Dir m ch) \<Rightarrow> mkdir_from fs nxt es perm
      | Some (File m d) \<Rightarrow> (fs, Some ENOTDIR)
      | None \<Rightarrow>
          mkdir_from (fs\<lparr>root := store (root fs) nxt (Dir (apply_umask fs perm) [])\<rparr>)
            nxt es perm)"

definition os_MkdirAll :: "filesys \<Rightarrow> string \<Rightarrow> nat \<Rightarrow> filesys \<times> error option" where
  "os_MkdirAll fs path perm =
     (if path = [] then (fs, Some (PathError ''mkdir'' path ENOENT))
      else case lookup (root fs) (start_dir fs path) of
        None \<Rightarrow> (fs, Some (PathError ''mkdir'' path ENOENT))
      | Some (File m d) \<Rightarrow> (fs, Some (PathError ''mkdir'' path ENOTDIR))
      | Some (Dir m ch) \<Rightarrow>
          (case mkdir_from fs (start_dir fs path) (split_elems path) perm of
             (fs', None) \<Rightarrow> (fs', None)
           | (fs', Some e) \<Rightarrow> (fs', Some (PathError ''mkdir'' path e))))"

text \<open>
  The name that \<^verbatim>\<open>FileInfo.Name\<close> reports for a path (\<^verbatim>\<open>basename\<close> of package os):
  trailing slashes go, but not the first byte; then the leading directories go.
\<close>

definition os_basename :: "string \<Rightarrow> string" where
  "os_basename name =
     (let p = (case name of [] \<Rightarrow> [] | c # cs \<Rightarrow> c # strip_trailing_slashes cs)
      in if p = [Separator] then p else last_elem p)"

record fileinfo =
  fi_Name :: string
  fi_IsDir :: bool
  fi_perm :: nat

definition file_info :: "string \<Rightarrow> node \<Rightarrow> fileinfo" where
  "file_info path n =
     \<lparr>fi_Name = os_basename path, fi_IsDir = node_IsDir n, fi_perm = node_perm n\<rparr>"

subsection \<open>filepath.Walk\<close>

text \<open>
  The callback of \<^verbatim>\<open>filepath.Walk\<close> gets the path, the file info (nil when the root
  cannot be examined) and an error; it is given here the state \<open>'w\<close> that the closure
  updates, and returns it with its error.
\<close>

type_synonym 'w WalkFunc =
  "string \<Rightarrow> fileinfo option \<Rightarrow> error option \<Rightarrow> 'w \<Rightarrow> 'w \<times> error option"

fun until_error :: "('a \<Rightarrow> 'w \<Rightarrow> 'w \<times> error option) \<Rightarrow> 'a list \<Rightarrow> 'w \<Rightarrow> 'w \<times> error option" where
  "until_error f [] w = (w, None)"
| "until_error f (x # xs) w =
     (case f x w of
        (w', None) \<Rightarrow> until_error f xs w'
      | (w', Some e) \<Rightarrow> (w', Some e))"

lemma until_error_cong [fundef_cong]:
  "xs = ys \<Longrightarrow> (\<And>x w. x \<in> set ys \<Longrightarrow> f x w = g x w) \<Longrightarrow> until_error f xs w = until_error g ys w"
proof (induction ys arbitrary: xs w)
  case Nil
  then show ?case by simp
next
  case (Cons y ys)
  then show ?case by (auto split: prod.splits option.splits)
qed

text \<open>
  \<^verbatim>\<open>walk\<close> of package filepath: a file is handed to the callback; of a directory the
  names are read first (which needs the read bit) and sorted, the callback gets the
  directory with the error of the reading, and, if neither failed, every entry is
  walked in the order of the names, until the first error.  The walk reads the entries
  of a directory from the node it has in hand: in a file system that nothing else
  changes, \<^verbatim>\<open>lstat\<close> of the joined path finds that entry.  (The callback of this
  package never returns \<^verbatim>\<open>SkipDir\<close> or \<^verbatim>\<open>SkipAll\<close>.)
\<close>

fun walk :: "'w WalkFunc \<Rightarrow> string \<Rightarrow> node \<Rightarrow> 'w \<Rightarrow> 'w \<times> error option" where
  "walk walkFn path (File m d) w = walkFn path (Some (file_info path (File m d))) None w"
| "walk walkFn path (Dir m es) w =
     (let err = (if owner_read m then None else Some (PathError ''open'' path EACCES)) in
      case walkFn path (Some (file_info path (Dir m es))) err w of
        (w1, err1) \<Rightarrow>
          if err \<noteq> None \<or> err1 \<noteq> None then (w1, err1)
          else until_error
                 (\<lambda>e. walk walkFn (filepath_Join [path, fst e]) (snd e))
                 (sort_key fst es) w1)"

definition filepath_Walk :: "filesys \<Rightarrow> string \<Rightarrow> 'w WalkFunc \<Rightarrow> 'w \<Rightarrow> 'w \<times> error option" where
  "filepath_Walk fs root_path walkFn w =
     (case os_Lstat fs root_path of
        Inl e \<Rightarrow> walkFn root_path None (Some e) w
      | Inr n \<Rightarrow> walk walkFn root_path n w)"

subsection \<open>Package archive/zip\<close>

text \<open>The writer: the entries written so far, in order.\<close>

type_synonym zip_Writer = "(zheader \<times> fdata) list"

definition zip_FileInfoHeader :: "fileinfo \<Rightarrow> zheader" where
  "zip_FileInfoHeader fi =
     \<lparr>h_Name = fi_Name fi, h_perm = fi_perm fi, h_dir = fi_IsDir fi, h_Method = Store\<rparr>"

text \<open>
  \<^verbatim>\<open>FileHeader.FileInfo().IsDir()\<close>: the directory bit of the stored mode, or a name
  that ends in a slash.
\<close>

definition header_IsDir :: "zheader \<Rightarrow> bool" where
  "header_IsDir h = (h_dir h \<or> strings_HasSuffix (h_Name h) ''/'')"

text \<open>
  \<^verbatim>\<open>Writer.CreateHeader\<close> refuses a name longer than 65535 bytes (the model then
  keeps the writer as it was); for a name that ends in a slash it writes a directory
  entry (method \<open>Store\<close>, no content), for any other name a file entry whose content is
  written next.
\<close>

definition zip_CreateHeader :: "zip_Writer \<Rightarrow> zheader \<Rightarrow> error + zip_Writer" where
  "zip_CreateHeader w fh =
     (if length (h_Name fh) > 65535 then Inl ZipErrLongName
      else if strings_HasSuffix (h_Name fh) ''/'' then Inr (w @ [(fh\<lparr>h_Method := Store\<rparr>, Bytes [])])
      else Inr (w @ [(fh, Bytes [])]))"

text \<open>
  Writing content to the entry created last: the writer of a directory entry accepts
  no byte.
\<close>

definition zip_Write :: "zip_Writer \<Rightarrow> fdata \<Rightarrow> zip_Writer \<times> error option" where
  "zip_Write w d =
     (case rev w of
        [] \<Rightarrow> (w, None)
      | (fh, old) # before \<Rightarrow>
          if strings_HasSuffix (h_Name fh) ''/'' then
            (if d = Bytes [] then (w, None) else (w, Some ZipErrWriteToDir))
          else (rev ((fh, d) # before), None))"

text \<open>\<^verbatim>\<open>zip.OpenReader\<close>: the entries of the container in the file.\<close>

definition zip_OpenReader :: "filesys \<Rightarrow> string \<Rightarrow> error + (zheader \<times> fdata) list" where
  "zip_OpenReader fs name =
     (case os_Open fs name of
        Inl e \<Rightarrow> Inl e
      | Inr n \<Rightarrow>
          (case read_all name n of
             Inl e \<Rightarrow> Inl e
           | Inr (Bytes b) \<Rightarrow> Inl ZipErrFormat
           | Inr (Zip files) \<Rightarrow> Inr files))"

text \<open>\<^verbatim>\<open>File.Open\<close>: both methods of the model are supported, the content is at hand.\<close>

definition zip_File_Open :: "zheader \<times> fdata \<Rightarrow> error + fdata" where
  "zip_File_Open file = Inr (snd file)"

subsection \<open>Archive and createArchive\<close>

text \<open>
  Lines 116 to 133 of the callback: the name of the entry, or \<open>None\<close> where the callback
  returns nil at the root directory check.
\<close>

definition set_header_Name :: "string \<Rightarrow> string \<Rightarrow> zheader \<Rightarrow> zheader option" where
  "set_header_Name baseDir path header =
     (if baseDir \<noteq> [] then
        (if baseDir = ''.'' then
           Some (header\<lparr>h_Name := filepath_ToSlash (filepath_Join [baseDir, path])\<rparr>)
         else
           let prefix = baseDir @ ''/'';
               header1 = header\<lparr>h_Name := filepath_ToSlash path\<rparr>;
               header2 = header1\<lparr>h_Name :=
                 filepath_ToSlash (filepath_Join [strings_TrimPrefix (h_Name header1) prefix])\<rparr>
           in if baseDir = h_Name header2 then None else Some header2)
      else Some header)"

text \<open>The callback that \<^verbatim>\<open>createArchive\<close> hands to \<^verbatim>\<open>filepath.Walk\<close>.\<close>

definition createArchive_walkFn :: "filesys \<Rightarrow> string \<Rightarrow> zip_Writer WalkFunc" where
  "createArchive_walkFn fs baseDir path info err archive =
     (case err of
        Some e \<Rightarrow> (archive, Some e)
      | None \<Rightarrow>
     (case info of
        None \<Rightarrow> (archive, Some NilFileInfo)
      | Some info \<Rightarrow>
     (case set_header_Name baseDir path (zip_FileInfoHeader info) of
        None \<Rightarrow> (archive, None)
      | Some header \<Rightarrow>
     (let header = (if fi_IsDir info then header\<lparr>h_Name := h_Name header @ ''/''\<rparr>
                    else header\<lparr>h_Method := Deflate\<rparr>) in
      case zip_CreateHeader archive header of
        Inl e \<Rightarrow> (archive, Some e)
      | Inr archive \<Rightarrow>
          if fi_IsDir info then (archive, None)
          else (case os_Open fs path of
                  Inl e \<Rightarrow> (archive, Some e)
                | Inr file \<Rightarrow>
                    (case read_all path file of
                       Inl e \<Rightarrow> (archive, Some e)
                     | Inr d \<Rightarrow> zip_Write archive d))))))"

text \<open>
  \<^verbatim>\<open>createArchive\<close>.  The deferred \<^verbatim>\<open>archive.Close()\<close> and \<^verbatim>\<open>zipfile.Close()\<close>
  run on every return after the target was created: they leave in the target the
  container of the entries written.  The writer buffers its output (4096 bytes); the
  model takes the target to be the empty file that \<^verbatim>\<open>os.Create\<close> left while the walk
  runs, which shows only when the walk visits the target itself.  The value of
  \<^verbatim>\<open>filepath.Walk\<close> is not used (line 105), and the function returns nil after the
  walk (line 163).
\<close>

definition createArchive :: "filesys \<Rightarrow> string \<Rightarrow> string \<Rightarrow> filesys \<times> error option" where
  "createArchive fs source target =
     (case os_Create fs target of
        Inl e \<Rightarrow> (fs, Some e)
      | Inr (fs1, zipfile) \<Rightarrow>
          (case os_Stat fs1 source of
             Inl e \<Rightarrow> (write_file fs1 zipfile (Zip []), Some e)
           | Inr info \<Rightarrow>
               (let baseDir = (if node_IsDir info then filepath_Base source else []);
                    walked = filepath_Walk fs1 source (createArchive_walkFn fs1 baseDir) []
                in (write_file fs1 zipfile (Zip (fst walked)), None))))"

definition Archive :: "filesys \<Rightarrow> string \<Rightarrow> string \<Rightarrow> filesys \<times> error option" where
  "Archive fs source target =
     (if target = [] then (fs, Some ErrTargetEmpty)
      else if source = [] then (fs, Some ErrSourceEmpty)
      else case createArchive fs source target of
        (fs', Some err) \<Rightarrow> (fs', Some err)
      | (fs', None) \<Rightarrow> (fs', None))"

subsection \<open>Unarchive\<close>

text \<open>
  Lines 201 to 205 and 212 to 216: the parent directory is made when \<^verbatim>\<open>os.Stat\<close> says
  that it does not exist; the value of \<^verbatim>\<open>os.MkdirAll\<close> is not used.
\<close>

definition ensure_parent :: "filesys \<Rightarrow> string \<Rightarrow> filesys" where
  "ensure_parent fs extractedFilePath =
     (case os_Stat fs (filepath_Dir extractedFilePath) of
        Inl err \<Rightarrow>
          if os_IsNotExist err then fst (os_MkdirAll fs (filepath_Dir extractedFilePath) 493)
          else fs
      | Inr info \<Rightarrow> fs)"

text \<open>
  The body of the loop of \<^verbatim>\<open>Unarchive\<close>, for the entries that are left.  The content
  of an entry is at hand in the model, so the \<^verbatim>\<open>io.Copy\<close> of line 226 does not fail.
\<close>

fun Unarchive_files :: "filesys \<Rightarrow> string \<Rightarrow> (zheader \<times> fdata) list \<Rightarrow> filesys \<times> error option" where
  "Unarchive_files fs target [] = (fs, None)"
| "Unarchive_files fs target (file # files) =
     (case zip_File_Open file of
        Inl err \<Rightarrow> (fs, Some err)
      | Inr zippedFile \<Rightarrow>
     (let targetDir = (if target = [] then ''./'' else target);
          extractedFilePath = filepath_Join [targetDir, h_Name (fst file)]
      in if header_IsDir (fst file) then
           (let fs1 = ensure_parent fs extractedFilePath;
                fs2 = fst (os_MkdirAll fs1 extractedFilePath (h_perm (fst file)))
            in Unarchive_files fs2 target files)
         else
           (let fs1 = ensure_parent fs extractedFilePath in
            case os_Create fs1 extractedFilePath of
              Inl err \<Rightarrow> (fs1, Some err)
            | Inr (fs2, f) \<Rightarrow> Unarchive_files (write_file fs2 f zippedFile) target files)))"

definition Unarchive :: "filesys \<Rightarrow> string \<Rightarrow> string \<Rightarrow> filesys \<times> error option" where
  "Unarchive fs source target =
     (case zip_OpenReader fs source of
        Inl err \<Rightarrow> (fs, Some err)
      | Inr files \<Rightarrow> Unarchive_files fs target files)"

subsection \<open>Download\<close>

text \<open>
  \<^verbatim>\<open>url.ParseRequestURI\<close>, up to the point where the parser turns to the authority and
  the path: control bytes, the empty string, \<open>*\<close>, the scheme, the query, and the
  test for a rootless rest.  What the parser does with a rest that starts with a
  slash is the parameter \<open>hier\<close> (from the scheme and the rest to the message of its
  error, if any).
\<close>

definition is_CTL :: "char \<Rightarrow> bool" where
  "is_CTL c = ((of_char c :: nat) < 32 \<or> (of_char c :: nat) = 127)"

definition is_letter :: "char \<Rightarrow> bool" where
  "is_letter c =
     (let n = (of_char c :: nat) in 97 \<le> n \<and> n \<le> 122 \<or> 65 \<le> n \<and> n \<le> 90)"

definition is_scheme_mark :: "char \<Rightarrow> bool" where
  "is_scheme_mark c =
     (let n = (of_char c :: nat)
      in 48 \<le> n \<and> n \<le> 57 \<or> c = CHR ''+'' \<or> c = CHR ''-'' \<or> c = CHR ''.'')"

text \<open>The loop of \<^verbatim>\<open>getScheme\<close>: \<open>seen\<close> is \<^verbatim>\<open>rawURL[:i]\<close>.\<close>

fun getScheme_loop :: "string \<Rightarrow> string \<Rightarrow> string \<Rightarrow> string + string \<times> string" where
  "getScheme_loop rawURL seen [] = Inr ([], rawURL)"
| "getScheme_loop rawURL seen (c # cs) =
     (if is_letter c then getScheme_loop rawURL (seen @ [c]) cs
      else if is_scheme_mark c then
        (if seen = [] then Inr ([], rawURL) else getScheme_loop rawURL (seen @ [c]) cs)
      else if c = CHR '':'' then
        (if seen = [] then Inl ''missing protocol scheme'' else Inr (seen, cs))
      else Inr ([], rawURL))"

definition getScheme :: "string \<Rightarrow> string + string \<times> string" where
  "getScheme rawURL = getScheme_loop rawURL [] rawURL"

definition url_ParseRequestURI :: "(string \<Rightarrow> string \<Rightarrow> string option) \<Rightarrow> string \<Rightarrow> error + unit" where
  "url_ParseRequestURI hier rawURL =
     (if list_ex is_CTL rawURL then
        Inl (UrlError ''parse'' rawURL ''net/url: invalid control character in URL'')
      else if rawURL = [] then Inl (UrlError ''parse'' rawURL ''empty url'')
      else if rawURL = ''*'' then Inr ()
      else case getScheme rawURL of
        Inl msg \<Rightarrow> Inl (UrlError ''parse'' rawURL msg)
      | Inr (scheme, rest) \<Rightarrow>
          (let rest = takeWhile (\<lambda>c. c \<noteq> CHR ''?'') rest in
           if strings_HasPrefix rest ''/'' then
             (case hier scheme rest of
                Some msg \<Rightarrow> Inl (UrlError ''parse'' rawURL msg)
              | None \<Rightarrow> Inr ())
           else if scheme \<noteq> [] then Inr ()
           else Inl (UrlError ''parse'' rawURL ''invalid URI for request'')))"

text \<open>
  \<^verbatim>\<open>http.Get\<close> with the default client, up to the point where the transport turns to
  the connection.  The URL is parsed by \<^verbatim>\<open>url.Parse\<close>: the part before the fragment
  must hold no control byte and must have a scheme that \<^verbatim>\<open>getScheme\<close> can read; the
  scheme is put in lower case; the host is taken from the authority, the text between
  \<open>//\<close> at the start of the rest (without the query) and the next slash.  The default
  transport, for which this package registers no other protocol, refuses a request
  whose scheme is neither \<open>http\<close> nor \<open>https\<close>, and then a request without a host, before
  anything is sent.  Every such error is a \<^verbatim>\<open>*url.Error\<close>.

  The model simplifies the text of these errors, not their occurrence: the message of
  the first refusal also quotes the scheme, and both name the URL as the parser
  prints it back, where the model names the source.  An error that \<^verbatim>\<open>url.Parse\<close> finds
  after the scheme (in the authority, the path or the fragment) is a \<^verbatim>\<open>*url.Error\<close>
  as well and comes before every request: for a URL that the model refuses it appears
  as that refusal, for the others it is part of the parameter.

  What is left is the parameter \<open>transport\<close>: the rest of the parsing, the host without
  user and port, the connection and the response; for a URL it gives the error of the
  request, or the body of the response.
\<close>

definition lower_code :: "char \<Rightarrow> nat" where
  "lower_code c = (let n = (of_char c :: nat) in if 65 \<le> n \<and> n \<le> 90 then n + 32 else n)"

definition is_http_scheme :: "string \<Rightarrow> bool" where
  "is_http_scheme scheme =
     (map lower_code scheme = map lower_code ''http''
      \<or> map lower_code scheme = map lower_code ''https'')"

definition url_authority :: "string \<Rightarrow> string" where
  "url_authority rest =
     (if strings_HasPrefix rest ''//'' then takeWhile (\<lambda>c. c \<noteq> CHR ''/'') (drop 2 rest)
      else [])"

definition http_Get :: "(string \<Rightarrow> error + fdata) \<Rightarrow> string \<Rightarrow> error + fdata" where
  "http_Get transport url =
     (let u = takeWhile (\<lambda>c. c \<noteq> CHR ''#'') url in
      if list_ex is_CTL u then
        Inl (UrlError ''parse'' u ''net/url: invalid control character in URL'')
      else case getScheme u of
        Inl msg \<Rightarrow> Inl (UrlError ''parse'' u msg)
      | Inr (scheme, rest) \<Rightarrow>
          if \<not> is_http_scheme scheme then
            Inl (UrlError ''Get'' url ''unsupported protocol scheme'')
          else if url_authority (takeWhile (\<lambda>c. c \<noteq> CHR ''?'') rest) = [] then
            Inl (UrlError ''Get'' url ''http: no Host in request URL'')
          else transport url)"

text \<open>
  \<^verbatim>\<open>Download\<close>.  The model delivers the body of the response whole: the \<^verbatim>\<open>io.Copy\<close>
  of line 47 does not fail.
\<close>

definition Download ::
  "(string \<Rightarrow> string \<Rightarrow> string option) \<Rightarrow> (string \<Rightarrow> error + fdata) \<Rightarrow>
   filesys \<Rightarrow> string \<Rightarrow> string \<Rightarrow> filesys \<times> error option" where
  "Download hier transport fs source target =
     (case url_ParseRequestURI hier source of
        Inl err \<Rightarrow> (fs, Some err)
      | Inr u \<Rightarrow>
          (case http_Get transport source of
             Inl err \<Rightarrow> (fs, Some err)
           | Inr body \<Rightarrow>
               (case os_Create fs target of
                  Inl err \<Rightarrow> (fs, Some err)
                | Inr (fs1, out) \<Rightarrow> (write_file fs1 out body, None))))"

subsection \<open>Reading a state\<close>

text \<open>The names of the entries of the container at a path (none when there is no container).\<close>

definition entry_names :: "filesys \<Rightarrow> string \<Rightarrow> string list" where
  "entry_names fs path =
     (case zip_OpenReader fs path of
        Inl e \<Rightarrow> []
      | Inr files \<Rightarrow> map (\<lambda>file. h_Name (fst file)) files)"

text \<open>The regular files below a node: their paths relative to the node, and their contents.\<close>

fun files_below :: "node \<Rightarrow> (string list \<times> fdata) list" where
  "files_below (File m d) = [([], d)]"
| "files_below (Dir m es) =
     concat (map (\<lambda>e. map (\<lambda>f. (fst e # fst f, snd f)) (files_below (snd e))) es)"

definition files_at :: "filesys \<Rightarrow> string \<Rightarrow> (string list \<times> fdata) list" where
  "files_at fs path = (case os_Stat fs path of Inl e \<Rightarrow> [] | Inr n \<Rightarrow> files_below n)"

subsection \<open>The file systems of the scenarios\<close>

text \<open>
  All have the working directory \<open>/w\<close> and the umask \<open>022\<close> (decimal 18); directories
  have mode \<open>0755\<close> (decimal 493) and files \<open>0644\<close> (decimal 420) unless said otherwise.
\<close>

definition in_w :: "(string \<times> node) list \<Rightarrow> filesys" where
  "in_w es = \<lparr>root = Dir 493 [(''w'', Dir 493 es)], cwd = [''w''], umask = 18\<rparr>"

text \<open>The directory \<open>a\<close> with the one file \<open>b.txt\<close>.\<close>

definition fs_hello :: filesys where
  "fs_hello = in_w [(''a'', Dir 493 [(''b.txt'', File 420 (Bytes ''hello''))])]"

text \<open>The directory \<open>a\<close> with a file that has the name of the directory.\<close>

definition fs_same_name :: filesys where
  "fs_same_name =
     in_w [(''a'', Dir 493 [(''a'', File 420 (Bytes ''x'')),
                            (''b.txt'', File 420 (Bytes ''hello''))])]"

text \<open>The directory \<open>a\<close> with a file that its owner may not read (mode \<open>0000\<close>).\<close>

definition fs_unreadable :: filesys where
  "fs_unreadable =
     in_w [(''a'', Dir 493 [(''b.txt'', File 0 (Bytes ''secret'')),
                            (''c.txt'', File 420 (Bytes ''hello''))])]"

text \<open>
  A container with a directory entry \<open>x/\<close> and a file entry \<open>y.txt\<close>, and a target
  directory \<open>t\<close> in which \<open>x\<close> is a regular file.
\<close>

definition fs_blocked :: filesys where
  "fs_blocked =
     in_w [(''in.zip'', File 420 (Zip
              [(\<lparr>h_Name = ''x/'', h_perm = 493, h_dir = True, h_Method = Store\<rparr>, Bytes []),
               (\<lparr>h_Name = ''y.txt'', h_perm = 420, h_dir = False, h_Method = Deflate\<rparr>,
                Bytes ''hello'')])),
           (''t'', Dir 493 [(''x'', File 420 (Bytes ''old''))])]"

text \<open>A working directory with one file, archived as \<open>.\<close>.\<close>

definition fs_dot :: filesys where
  "fs_dot = in_w [(''b.txt'', File 420 (Bytes ''hello''))]"

text \<open>
  A container whose only entry is a file with the name \<open>../evil.txt\<close>, and an empty
  target directory \<open>t\<close>.
\<close>

definition fs_evil :: filesys where
  "fs_evil =
     in_w [(''evil.zip'', File 420 (Zip
              [(\<lparr>h_Name = ''../evil.txt'', h_perm = 420, h_dir = False, h_Method = Deflate\<rparr>,
                Bytes ''x'')])),
           (''t'', Dir 493 [])]"

text \<open>The directory \<open>a\<close> with a file, and a directory that holds a file and an empty directory.\<close>

definition fs_nested :: filesys where
  "fs_nested =
     in_w [(''a'', Dir 493 [(''sub'', Dir 493 [(''c.txt'', File 420 (Bytes ''x'')),
                                               (''empty'', Dir 493 [])]),
                            (''b.txt'', File 420 (Bytes ''hello''))])]"

text \<open>The state after \<^verbatim>\<open>os.Create\<close> of the target, in which the walk runs.\<close>

definition after_Create :: "filesys \<Rightarrow> string \<Rightarrow> filesys" where
  "after_Create fs target = (case os_Create fs target of Inl e \<Rightarrow> fs | Inr (fs1, f) \<Rightarrow> fs1)"

text \<open>
  \<^verbatim>\<open>Archive\<close> of a source into a zip file, then \<^verbatim>\<open>Unarchive\<close> of that file into a
  target: the final state and the two returned errors.
\<close>

definition roundtrip ::
  "filesys \<Rightarrow> string \<Rightarrow> string \<Rightarrow> string \<Rightarrow> filesys \<times> error option \<times> error option" where
  "roundtrip fs source zipfile target =
     (case Archive fs source zipfile of
        (fs1, err1) \<Rightarrow>
          (case Unarchive fs1 zipfile target of
             (fs2, err2) \<Rightarrow> (fs2, err1, err2)))"

subsection \<open>Notions used in the statements\<close>

text \<open>
  A plain name: what a directory can hold as the name of an entry, other than \<open>.\<close> and
  \<open>..\<close>.
\<close>

definition plain_name :: "string \<Rightarrow> bool" where
  "plain_name n = (n \<noteq> [] \<and> Separator \<notin> set n \<and> n \<noteq> ''.'' \<and> n \<noteq> ''..'')"

text \<open>
  The name that lines 124 and 125 compute for a visited path when the base directory
  is neither empty nor \<open>.\<close>.
\<close>

definition relative_name :: "string \<Rightarrow> string \<Rightarrow> string" where
  "relative_name baseDir path =
     filepath_ToSlash (filepath_Join [strings_TrimPrefix (filepath_ToSlash path) (baseDir @ ''/'')])"

text \<open>
  An entry for the base name itself: a file entry with that name, or a directory entry
  with that name and the slash that line 137 appends.
\<close>

definition is_base_entry :: "string \<Rightarrow> zheader \<Rightarrow> bool" where
  "is_base_entry baseDir h = (h_Name h = baseDir @ (if h_dir h then ''/'' else []))"

definition no_base_entry :: "string \<Rightarrow> (zheader \<times> fdata) list \<Rightarrow> bool" where
  "no_base_entry baseDir files = (\<not> list_ex (\<lambda>file. is_base_entry baseDir (fst file)) files)"

text \<open>Every entry with the directory bit has a name that ends in a slash.\<close>

definition dirs_end_in_slash :: "(zheader \<times> fdata) list \<Rightarrow> bool" where
  "dirs_end_in_slash files =
     list_all (\<lambda>file. if h_dir (fst file) then strings_HasSuffix (h_Name (fst file)) ''/'' else True)
       files"

text \<open>
  A valid directory tree: the names in every directory are plain and distinct, the
  owner may read every file, and the owner may read, write and search every directory
  (to list it, to fill its copy, which gets the same mode, and to reach what it
  holds).
\<close>

fun valid_tree :: "node \<Rightarrow> bool" where
  "valid_tree (File m d) = owner_read m"
| "valid_tree (Dir m es) =
     (owner_full m \<and> distinct (map fst es)
      \<and> list_all (\<lambda>e. plain_name (fst e) \<and> valid_tree (snd e)) es)"

text \<open>
  The entries that the walk of a valid tree writes for the node with the relative
  path \<open>rel\<close>, and for the root of the tree, which gets no entry of its own.
\<close>

fun entries_below :: "string list \<Rightarrow> node \<Rightarrow> (zheader \<times> fdata) list" where
  "entries_below rel (File m d) =
     [(\<lparr>h_Name = join_elems rel, h_perm = m, h_dir = False, h_Method = Deflate\<rparr>, d)]"
| "entries_below rel (Dir m es) =
     (\<lparr>h_Name = join_elems rel @ ''/'', h_perm = m, h_dir = True, h_Method = Store\<rparr>, Bytes [])
     # concat (map (\<lambda>e. entries_below (rel @ [fst e]) (snd e)) (sort_key fst es))"

fun root_entries :: "node \<Rightarrow> (zheader \<times> fdata) list" where
  "root_entries (File m d) = []"
| "root_entries (Dir m es) =
     concat (map (\<lambda>e. entries_below [fst e] (snd e)) (sort_key fst es))"

text \<open>Every name is one that \<^verbatim>\<open>CreateHeader\<close> accepts.\<close>

definition names_fit :: "(zheader \<times> fdata) list \<Rightarrow> bool" where
  "names_fit files = list_all (\<lambda>file. length (h_Name (fst file)) \<le> 65535) files"

text \<open>
  What \<^verbatim>\<open>Unarchive\<close> makes of a node under the umask \<open>u\<close>: a file gets the mode of
  \<^verbatim>\<open>os.Create\<close>, a directory the stored mode, and the entries of a directory come in
  the order of the walk.
\<close>

fun extracted :: "nat \<Rightarrow> node \<Rightarrow> node" where
  "extracted u (File m d) = File (438 - (438 AND u)) d"
| "extracted u (Dir m es) =
     Dir (m - (m AND u)) (map (\<lambda>e. (fst e, extracted u (snd e))) (sort_key fst es))"

text \<open>
  An HTTP(S) URI, as far as its start shows: the scheme \<open>http\<close> or \<open>https\<close>, in any case
  of the letters, then \<open>://\<close>, then an authority that is not empty (a character that
  opens neither the path nor the query nor the fragment).
\<close>

definition after_scheme :: "string \<Rightarrow> string \<Rightarrow> string option" where
  "after_scheme name source =
     (if map lower_code (take (length name) source) = map lower_code name
         \<and> strings_HasPrefix (drop (length name) source) ''://''
      then Some (drop (length name + 3) source) else None)"

definition has_authority :: "string \<Rightarrow> bool" where
  "has_authority rest =
     (case rest of [] \<Rightarrow> False
      | c # cs \<Rightarrow> c \<noteq> CHR ''/'' \<and> c \<noteq> CHR ''?'' \<and> c \<noteq> CHR ''#'')"

definition http_URI :: "string \<Rightarrow> bool" where
  "http_URI source =
     (case after_scheme ''http'' source of
        Some rest \<Rightarrow> has_authority rest
      | None \<Rightarrow>
          (case after_scheme ''https'' source of
             Some rest \<Rightarrow> has_authority rest
           | None \<Rightarrow> False))"

text \<open>A location that exists, or whose parent is a directory.\<close>

definition reachable :: "node \<Rightarrow> string list \<Rightarrow> bool" where
  "reachable r loc =
     ((\<exists>n. lookup r loc = Some n)
      \<or> (loc \<noteq> [] \<and> (\<exists>m es. lookup r (butlast loc) = Some (Dir m es))))"

section \<open>Evaluation of the model\<close>

lemmas path_defs =
  strings_HasPrefix_def strings_HasSuffix_def strings_TrimPrefix_def Separator_def
  filepath_Clean_def filepath_Join_def filepath_ToSlash_def strip_trailing_slashes_def
  last_elem_def filepath_Base_def filepath_Dir_def os_basename_def

lemmas os_defs =
  owner_read_def step_def start_dir_def namei_def stat_node_def os_Stat_def os_Lstat_def
  os_Open_def apply_umask_def os_Create_def write_file_def os_MkdirAll_def file_info_def

lemmas zip_defs =
  filepath_Walk_def zip_FileInfoHeader_def header_IsDir_def zip_CreateHeader_def
  zip_Write_def zip_OpenReader_def zip_File_Open_def set_header_Name_def
  createArchive_walkFn_def createArchive_def Archive_def ensure_parent_def Unarchive_def
  entry_names_def files_at_def in_w_def after_Create_def roundtrip_def

text \<open>The model of package filepath on examples of the package's documentation and tests.\<close>

lemma filepath_Clean_examples:
  "map filepath_Clean
     [''abc'', ''abc/def'', ''.'', ''..'', ''../../abc'', ''/abc'', ''/'', [], ''abc/'', ''./'',
      ''../'', ''abc//def//ghi'', ''abc/./def'', ''/./abc/def'', ''abc/def/ghi/../jkl'',
      ''abc/def/../ghi/../jkl'', ''abc/def/../..'', ''/abc/def/../..'', ''abc/def/../../..'',
      ''/abc/def/../../..'', ''abc/def/../../../ghi/jkl/../../../mno'', ''/../abc'',
      ''abc/../../././../def'', ''//abc'', ''//abc//'']
   = [''abc'', ''abc/def'', ''.'', ''..'', ''../../abc'', ''/abc'', ''/'', ''.'', ''abc'', ''.'',
      ''..'', ''abc/def/ghi'', ''abc/def'', ''/abc/def'', ''abc/def/jkl'',
      ''abc/jkl'', ''.'', ''/'', ''..'',
      ''/'', ''../../mno'', ''/abc'',
      ''../../def'', ''/abc'', ''/abc'']"
  by (simp add: path_defs)

lemma filepath_Base_examples:
  "map filepath_Base [[], ''.'', ''/.'', ''/'', ''////'', ''x/'', ''abc'', ''abc/def'', ''a/b/.x'']
   = [''.'', ''.'', ''.'', ''/'', ''/'', ''x'', ''abc'', ''def'', ''.x'']"
  by (simp add: path_defs)

lemma filepath_Dir_examples:
  "map filepath_Dir [[], ''.'', ''/.'', ''/'', ''/foo'', ''x/'', ''abc'', ''abc/def'', ''a/b/.x'']
   = [''.'', ''.'', ''/'', ''/'', ''/'', ''x'', ''.'', ''abc'', ''a/b'']"
  by (simp add: path_defs)

lemma filepath_Join_examples:
  "map filepath_Join
     [[], [[]], [''/''], [''a'', ''b''], [''a'', []], [[], ''b''], [''/'', ''a/b''], [''/'', []],
      [''a'', ''/b''], [''a/'', ''b''], [[], []], [''//'', ''a'']]
   = [[], [], ''/'', ''a/b'', ''a'', ''b'', ''/a/b'', ''/'',
      ''a/b'', ''a/b'', [], ''/a'']"
  by (simp add: path_defs)

section \<open>Properties of the model of the library\<close>

subsection \<open>Looking up what was stored\<close>

lemma map_of_set_child_same:
  "map_of es c = Some old \<Longrightarrow> map_of (set_child c new es) c = Some new"
  by (induction es) (auto split: if_splits)

lemma map_of_set_child_other:
  "k \<noteq> c \<Longrightarrow> map_of (set_child c new es) k = map_of es k"
  by (induction es) auto

lemma lookup_store_existing:
  "lookup r loc = Some old \<Longrightarrow> lookup (store r loc new) loc = Some new"
proof (induction r loc arbitrary: old rule: lookup.induct)
  case (1 n)
  then show ?case by simp
next
  case (2 m d c cs)
  then show ?case by simp
next
  case (3 m es c cs)
  then show ?case
    by (auto split: option.splits simp: map_of_set_child_same)
qed

lemma lookup_store_new:
  "lookup r loc = None \<Longrightarrow> loc \<noteq> [] \<Longrightarrow> lookup r (butlast loc) = Some (Dir m es)
   \<Longrightarrow> lookup (store r loc new) loc = Some new"
proof (induction r loc rule: lookup.induct)
  case (1 n)
  then show ?case by simp
next
  case (2 m' d c cs)
  then show ?case by (cases cs) auto
next
  case (3 m' es' c cs)
  show ?case
  proof (cases cs)
    case Nil
    with 3 show ?thesis by (auto split: option.splits)
  next
    case (Cons c' cs')
    with 3 show ?thesis
      by (auto split: option.splits simp: map_of_set_child_same)
  qed
qed

lemma lookup_prefix:
  "lookup r (xs @ ys) = Some n \<Longrightarrow> \<exists>n'. lookup r xs = Some n'"
proof (induction r xs rule: lookup.induct)
  case (1 n)
  then show ?case by simp
next
  case (2 m d c cs)
  then show ?case by simp
next
  case (3 m es c cs)
  then show ?case by (auto split: option.splits)
qed

lemma step_reachable:
  assumes "lookup r cur = Some (Dir m es)"
  shows "reachable r (step cur e)"
proof -
  have "\<exists>n'. lookup r (butlast cur) = Some n'"
    using assms lookup_prefix [of r "butlast cur" "[last cur]"]
    by (cases "cur = []") auto
  with assms show ?thesis
    by (auto simp: step_def reachable_def)
qed

lemma namei_from_reachable:
  "namei_from r cur es = Inr loc \<Longrightarrow> es \<noteq> [] \<Longrightarrow> reachable r loc"
proof (induction es arbitrary: cur)
  case Nil
  then show ?case by simp
next
  case (Cons e es)
  then obtain m ch where d: "lookup r cur = Some (Dir m ch)"
    by (auto split: option.splits node.splits)
  show ?case
  proof (cases es)
    case Nil
    with Cons.prems d show ?thesis by (auto simp: step_reachable)
  next
    case (Cons e' es')
    with Cons.IH [of "step cur e"] Cons.prems d show ?thesis by auto
  qed
qed

lemma split_elems_not_Nil: "split_elems p \<noteq> []"
  by (induction p) (auto split: list.splits)

lemma namei_reachable: "namei fs path = Inr loc \<Longrightarrow> reachable (root fs) loc"
  using namei_from_reachable [OF _ split_elems_not_Nil]
  by (auto simp: namei_def split: if_splits)

lemma os_Create_lookup:
  assumes "os_Create fs path = Inr (fs1, loc)"
  shows "\<exists>m. lookup (root fs1) loc = Some (File m (Bytes []))"
proof -
  from assms obtain r: "namei fs path = Inr loc"
    by (auto simp: os_Create_def split: sum.splits option.splits node.splits)
  show ?thesis
  proof (cases "lookup (root fs) loc")
    case None
    with namei_reachable [OF r] obtain m es where
      "loc \<noteq> []" "lookup (root fs) (butlast loc) = Some (Dir m es)"
      by (auto simp: reachable_def)
    with None assms r show ?thesis
      by (auto simp: os_Create_def lookup_store_new)
  next
    case (Some n)
    with assms r show ?thesis
      by (cases n) (auto simp: os_Create_def lookup_store_existing)
  qed
qed

lemma write_file_lookup:
  "lookup (root fs) loc = Some (File m old) \<Longrightarrow>
   lookup (root (write_file fs loc d)) loc = Some (File m d)"
  by (simp add: write_file_def lookup_store_existing)

subsection \<open>Paths made of plain names\<close>

lemma split_elems_plain: "Separator \<notin> set n \<Longrightarrow> split_elems n = [n]"
  by (induction n) auto

lemma split_elems_append:
  "Separator \<notin> set a \<Longrightarrow> split_elems (a @ Separator # b) = a # split_elems b"
  by (induction a) auto

lemma Join_dotdot:
  assumes "plain_name t" and "plain_name n"
  shows "filepath_Join [t, ''../'' @ n] = n"
proof -
  have d: "Separator \<notin> set ''..''" by (simp add: Separator_def)
  have "split_elems (''..'' @ Separator # n) = [''..'', n]"
    using assms split_elems_append [OF d, of n] by (simp add: split_elems_plain plain_name_def)
  then have s: "split_elems (t @ Separator # ''..'' @ Separator # n) = [t, ''..'', n]"
    using assms split_elems_append [of t "''..'' @ Separator # n"] by (simp add: plain_name_def)
  have h: "hd (t @ Separator # ''..'' @ Separator # n) \<noteq> Separator"
    using assms by (cases t) (auto simp: plain_name_def)
  have "filepath_Clean (t @ Separator # ''..'' @ Separator # n) = n"
    using assms h s by (simp add: filepath_Clean_def plain_name_def Let_def)
  then show ?thesis
    using assms by (simp add: filepath_Join_def plain_name_def Separator_def)
qed

lemma Dir_plain: "Separator \<notin> set n \<Longrightarrow> filepath_Dir n = ''.''"
proof -
  assume "Separator \<notin> set n"
  then have "dropWhile (\<lambda>c. c \<noteq> Separator) (rev n) = []"
    by (auto simp: dropWhile_eq_Nil_conv)
  then show ?thesis by (simp add: filepath_Dir_def filepath_Clean_def)
qed

lemma Stat_dot:
  assumes "lookup (root fs) (cwd fs) = Some (Dir m es)"
  shows "os_Stat fs ''.'' = Inr (Dir m es)"
  using assms by (simp add: os_Stat_def stat_node_def namei_def start_dir_def step_def Separator_def)

lemma namei_plain:
  assumes "plain_name n" and "lookup (root fs) (cwd fs) = Some (Dir m es)"
  shows "namei fs n = Inr (cwd fs @ [n])"
proof -
  from assms(1) have "hd n \<noteq> Separator" by (cases n) (auto simp: plain_name_def)
  with assms show ?thesis
    by (simp add: namei_def start_dir_def split_elems_plain step_def plain_name_def)
qed

lemma map_of_append_other: "k \<noteq> c \<Longrightarrow> map_of (es @ [(c, v)]) k = map_of es k"
  by (induction es) auto

lemma lookup_store_sibling:
  "n \<noteq> t \<Longrightarrow> lookup (store r (xs @ [n]) new) (xs @ [t]) = lookup r (xs @ [t])"
proof (induction xs arbitrary: r)
  case Nil
  then show ?case
    by (cases r) (auto split: option.splits simp: map_of_append_other map_of_set_child_other)
next
  case (Cons c cs)
  then show ?case
    by (cases r) (auto split: option.splits simp: map_of_set_child_same)
qed

subsection \<open>What the walk keeps\<close>

lemma Base_not_Nil: "filepath_Base path \<noteq> []"
  by (simp add: filepath_Base_def Let_def)

lemma set_header_Name_None:
  assumes "baseDir \<noteq> []" and "baseDir \<noteq> ''.''"
  shows "(set_header_Name baseDir path header = None) = (relative_name baseDir path = baseDir)"
  using assms by (auto simp: set_header_Name_def relative_name_def Let_def)

lemma set_header_Name_Some:
  assumes "baseDir \<noteq> []" and "baseDir \<noteq> ''.''"
    and "set_header_Name baseDir path header = Some h"
  shows "h_Name h \<noteq> baseDir \<and> h_dir h = h_dir header"
  using assms by (auto simp: set_header_Name_def Let_def split: if_splits)

lemma no_base_entry_append:
  "no_base_entry b (w @ [file]) = (no_base_entry b w \<and> \<not> is_base_entry b (fst file))"
  by (auto simp: no_base_entry_def)

lemma no_base_entry_CreateHeader:
  assumes "no_base_entry b w" and "\<not> is_base_entry b fh"
    and "zip_CreateHeader w fh = Inr w'"
  shows "no_base_entry b w'"
  using assms
  by (auto simp: zip_CreateHeader_def no_base_entry_append is_base_entry_def split: if_splits)

lemma no_base_entry_Write:
  assumes "no_base_entry b w"
  shows "no_base_entry b (fst (zip_Write w d))"
proof (cases "rev w")
  case Nil
  with assms show ?thesis by (simp add: zip_Write_def)
next
  case (Cons entry before)
  then have w: "w = rev before @ [entry]" by (metis rev.simps(2) rev_rev_ident)
  obtain fh old where f: "entry = (fh, old)" by (cases entry)
  from assms w f have "no_base_entry b (rev before @ [(fh, d)])"
    by (simp add: no_base_entry_append)
  with assms Cons f show ?thesis by (simp add: zip_Write_def)
qed

lemma walkFn_no_base_entry:
  assumes b: "baseDir \<noteq> []" "baseDir \<noteq> ''.''" and w: "no_base_entry baseDir w"
  shows "no_base_entry baseDir (fst (createArchive_walkFn fs baseDir path info err w))"
proof (cases err)
  case (Some e)
  with w show ?thesis by (simp add: createArchive_walkFn_def)
next
  case None
  note err = this
  show ?thesis
  proof (cases info)
    case None
    with w err show ?thesis by (simp add: createArchive_walkFn_def)
  next
    case (Some fi)
    note info = this
    show ?thesis
    proof (cases "set_header_Name baseDir path (zip_FileInfoHeader fi)")
      case None
      with w err info show ?thesis by (simp add: createArchive_walkFn_def)
    next
      case (Some h)
      from set_header_Name_Some [OF b Some]
      have n: "h_Name h \<noteq> baseDir" and d: "h_dir h = fi_IsDir fi"
        by (simp_all add: zip_FileInfoHeader_def)
      let ?h = "if fi_IsDir fi then h\<lparr>h_Name := h_Name h @ ''/''\<rparr> else h\<lparr>h_Method := Deflate\<rparr>"
      from n d have nb: "\<not> is_base_entry baseDir ?h"
        by (simp add: is_base_entry_def)
      show ?thesis
      proof (cases "zip_CreateHeader w ?h")
        case (Inl e)
        with w err info Some show ?thesis by (simp add: createArchive_walkFn_def)
      next
        case (Inr w')
        from no_base_entry_CreateHeader [OF w nb Inr] have w': "no_base_entry baseDir w'" .
        with err info Some Inr show ?thesis
          by (auto simp: createArchive_walkFn_def no_base_entry_Write split: sum.splits)
      qed
    qed
  qed
qed

lemma until_error_invariant:
  assumes "\<And>x w. x \<in> set xs \<Longrightarrow> P w \<Longrightarrow> P (fst (f x w))" and "P w"
  shows "P (fst (until_error f xs w))"
  using assms
proof (induction xs arbitrary: w)
  case Nil
  then show ?case by simp
next
  case (Cons x xs)
  from Cons.prems have p: "P (fst (f x w))" by simp
  show ?case
  proof (cases "f x w")
    case (Pair w' e)
    with p have "P w'" by simp
    with Cons Pair show ?thesis by (cases e) auto
  qed
qed

lemma walk_invariant:
  assumes "\<And>path info err w. P w \<Longrightarrow> P (fst (walkFn path info err w))"
  shows "P w \<Longrightarrow> P (fst (walk walkFn path n w))"
  using assms
proof (induction walkFn path n w rule: walk.induct)
  case (1 walkFn path m d w)
  then show ?case by simp
next
  case (2 walkFn path m es w)
  let ?err = "if owner_read m then None else Some (PathError ''open'' path EACCES)"
  obtain w1 err1 where r: "walkFn path (Some (file_info path (Dir m es))) ?err w = (w1, err1)"
    by (cases "walkFn path (Some (file_info path (Dir m es))) ?err w")
  from "2.prems" r have w1: "P w1" by (metis fst_conv)
  show ?case
  proof (cases "?err \<noteq> None \<or> err1 \<noteq> None")
    case True
    with r w1 show ?thesis by (auto simp: Let_def)
  next
    case False
    have "P (fst (until_error (\<lambda>e. walk walkFn (filepath_Join [path, fst e]) (snd e))
                    (sort_key fst es) w1))"
    proof (rule until_error_invariant)
      fix x w' assume "x \<in> set (sort_key fst es)" and "P w'"
      with "2.IH" [OF refl r [symmetric] False] "2.prems"(2)
      show "P (fst (walk walkFn (filepath_Join [path, fst x]) (snd x) w'))" by blast
    qed (rule w1)
    with r False show ?thesis by (auto simp: Let_def)
  qed
qed

lemma Walk_no_base_entry:
  assumes "baseDir \<noteq> []" "baseDir \<noteq> ''.''"
  shows "no_base_entry baseDir (fst (filepath_Walk fs source (createArchive_walkFn fs baseDir) []))"
proof -
  have e: "no_base_entry baseDir []" by (simp add: no_base_entry_def)
  show ?thesis
  proof (cases "os_Lstat fs source")
    case (Inl err)
    with walkFn_no_base_entry [OF assms e] show ?thesis by (simp add: filepath_Walk_def)
  next
    case (Inr n)
    have "no_base_entry baseDir (fst (walk (createArchive_walkFn fs baseDir) source n []))"
    proof (rule walk_invariant)
      fix path info err w assume "no_base_entry baseDir w"
      then show "no_base_entry baseDir (fst (createArchive_walkFn fs baseDir path info err w))"
        by (rule walkFn_no_base_entry [OF assms])
    qed (rule e)
    with Inr show ?thesis by (simp add: filepath_Walk_def)
  qed
qed

lemma set_header_Name_dir:
  "set_header_Name baseDir path header = Some h \<Longrightarrow> h_dir h = h_dir header"
  by (auto simp: set_header_Name_def Let_def split: if_splits)

lemma dirs_end_in_slash_Write:
  assumes "dirs_end_in_slash w"
  shows "dirs_end_in_slash (fst (zip_Write w d))"
proof (cases "rev w")
  case Nil
  with assms show ?thesis by (simp add: zip_Write_def)
next
  case (Cons entry before)
  then have w: "w = rev before @ [entry]" by (metis rev.simps(2) rev_rev_ident)
  obtain fh old where f: "entry = (fh, old)" by (cases entry)
  from assms w f have "dirs_end_in_slash (rev before @ [(fh, d)])"
    by (auto simp: dirs_end_in_slash_def split: if_splits)
  with assms Cons f show ?thesis by (simp add: zip_Write_def)
qed

lemma walkFn_dirs_end_in_slash:
  assumes w: "dirs_end_in_slash w"
  shows "dirs_end_in_slash (fst (createArchive_walkFn fs baseDir path info err w))"
proof (cases "\<exists>fi h. err = None \<and> info = Some fi
                \<and> set_header_Name baseDir path (zip_FileInfoHeader fi) = Some h")
  case False
  with w show ?thesis
    by (auto simp: createArchive_walkFn_def split: option.splits)
next
  case True
  then obtain fi h where err: "err = None" and info: "info = Some fi"
    and h: "set_header_Name baseDir path (zip_FileInfoHeader fi) = Some h" by blast
  from set_header_Name_dir [OF h] have d: "h_dir h = fi_IsDir fi"
    by (simp add: zip_FileInfoHeader_def)
  let ?h = "if fi_IsDir fi then h\<lparr>h_Name := h_Name h @ ''/''\<rparr> else h\<lparr>h_Method := Deflate\<rparr>"
  show ?thesis
  proof (cases "zip_CreateHeader w ?h")
    case (Inl e)
    with w err info h show ?thesis by (simp add: createArchive_walkFn_def)
  next
    case (Inr w')
    with w d have "dirs_end_in_slash w'"
      by (auto simp: zip_CreateHeader_def dirs_end_in_slash_def strings_HasSuffix_def
               split: if_splits)
    with err info h Inr show ?thesis
      by (auto simp: createArchive_walkFn_def dirs_end_in_slash_Write split: sum.splits)
  qed
qed

text \<open>
  Whatever the source is, every entry that \<^verbatim>\<open>Archive\<close> writes for a directory has a
  name that ends in a slash.
\<close>

lemma Archive_directory_names:
  assumes "source \<noteq> []" and "target \<noteq> []"
    and "os_Create fs target = Inr (fs1, zipfile)"
    and "os_Stat fs1 source = Inr info"
  shows "\<exists>files. Archive fs source target = (write_file fs1 zipfile (Zip files), None)
               \<and> dirs_end_in_slash files"
proof -
  let ?b = "if node_IsDir info then filepath_Base source else []"
  let ?files = "fst (filepath_Walk fs1 source (createArchive_walkFn fs1 ?b) [])"
  have e: "dirs_end_in_slash []" by (simp add: dirs_end_in_slash_def)
  have "dirs_end_in_slash ?files"
  proof (cases "os_Lstat fs1 source")
    case (Inl err)
    with walkFn_dirs_end_in_slash [OF e] show ?thesis by (simp add: filepath_Walk_def)
  next
    case (Inr n)
    have "dirs_end_in_slash (fst (walk (createArchive_walkFn fs1 ?b) source n []))"
    proof (rule walk_invariant)
      fix path info err w assume "dirs_end_in_slash w"
      then show "dirs_end_in_slash (fst (createArchive_walkFn fs1 ?b path info err w))"
        by (rule walkFn_dirs_end_in_slash)
    qed (rule e)
    with Inr show ?thesis by (simp add: filepath_Walk_def)
  qed
  moreover have "Archive fs source target = (write_file fs1 zipfile (Zip ?files), None)"
    using assms by (simp add: Archive_def createArchive_def Let_def)
  ultimately show ?thesis by blast
qed

subsection \<open>Paths joined from plain names\<close>

lemma join_elems_snoc:
  "ns \<noteq> [] \<Longrightarrow> join_elems (ns @ [n]) = join_elems ns @ Separator # n"
  by (induction ns rule: join_elems.induct) auto

lemma join_elems_Cons:
  "ns \<noteq> [] \<Longrightarrow> join_elems (n # ns) = n @ Separator # join_elems ns"
  by (cases ns) auto

lemma split_join:
  "list_all plain_name ns \<Longrightarrow> ns \<noteq> [] \<Longrightarrow> split_elems (join_elems ns) = ns"
proof (induction ns rule: join_elems.induct)
  case 1
  then show ?case by simp
next
  case (2 e)
  then show ?case by (simp add: split_elems_plain plain_name_def)
next
  case (3 e e' es)
  then show ?case
    using split_elems_append [of e "join_elems (e' # es)"] by (simp add: plain_name_def)
qed

lemma clean_elems_plain:
  "list_all plain_name ns \<Longrightarrow> clean_elems rooted out ns = rev out @ ns"
  by (induction ns arbitrary: out) (auto simp: plain_name_def)

lemma join_elems_not_Nil:
  "list_all plain_name ns \<Longrightarrow> ns \<noteq> [] \<Longrightarrow> join_elems ns \<noteq> []"
  by (induction ns rule: join_elems.induct) (auto simp: plain_name_def)

lemma hd_join_elems:
  "list_all plain_name ns \<Longrightarrow> ns \<noteq> [] \<Longrightarrow> hd (join_elems ns) \<noteq> Separator"
proof (induction ns rule: join_elems.induct)
  case 1
  then show ?case by simp
next
  case (2 e)
  then show ?case by (cases e) (auto simp: plain_name_def)
next
  case (3 e e' es)
  then show ?case by (cases e) (auto simp: plain_name_def)
qed

lemma Clean_join:
  assumes "list_all plain_name ns" and "ns \<noteq> []"
  shows "filepath_Clean (join_elems ns) = join_elems ns"
  using assms join_elems_not_Nil [OF assms] hd_join_elems [OF assms]
  by (simp add: filepath_Clean_def Let_def split_join clean_elems_plain)

lemma split_elems_snoc_empty:
  "split_elems (p @ [Separator]) = split_elems p @ [[]]"
  using split_elems_not_Nil by (induction p) (auto split: list.splits)

lemma clean_elems_append:
  "clean_elems rooted out (xs @ ys) = clean_elems rooted (rev (clean_elems rooted out xs)) ys"
proof (induction xs arbitrary: out)
  case Nil
  then show ?case by simp
next
  case (Cons x xs)
  then show ?case by (auto split: list.splits)
qed

lemma Clean_join_slash:
  assumes "list_all plain_name ns" and "ns \<noteq> []"
  shows "filepath_Clean (join_elems ns @ [Separator]) = join_elems ns"
proof -
  have "clean_elems False [] (split_elems (join_elems ns @ [Separator])) = ns"
    using assms by (simp add: split_elems_snoc_empty split_join clean_elems_append clean_elems_plain)
  moreover have "hd (join_elems ns @ [Separator]) \<noteq> Separator"
    using join_elems_not_Nil [OF assms] hd_join_elems [OF assms] by simp
  ultimately show ?thesis
    using join_elems_not_Nil [OF assms] by (simp add: filepath_Clean_def Let_def)
qed

lemma Join_two:
  assumes "list_all plain_name ns" and "ns \<noteq> []" and "plain_name n"
  shows "filepath_Join [join_elems ns, n] = join_elems (ns @ [n])"
proof -
  have "filepath_Clean (join_elems (ns @ [n])) = join_elems (ns @ [n])"
    using assms by (intro Clean_join) auto
  then show ?thesis
    using assms join_elems_not_Nil [OF assms(1,2)]
    by (simp add: filepath_Join_def join_elems_snoc)
qed

lemma Join_target:
  assumes "plain_name t" and "list_all plain_name rel" and "rel \<noteq> []"
  shows "filepath_Join [t, join_elems rel] = join_elems (t # rel)"
proof -
  have "filepath_Clean (join_elems (t # rel)) = join_elems (t # rel)"
    using assms by (intro Clean_join) auto
  then show ?thesis
    using assms by (simp add: filepath_Join_def join_elems_Cons plain_name_def)
qed

lemma Join_target_slash:
  assumes "plain_name t" and "list_all plain_name rel" and "rel \<noteq> []"
  shows "filepath_Join [t, join_elems rel @ ''/''] = join_elems (t # rel)"
proof -
  have "filepath_Clean (join_elems (t # rel) @ [Separator]) = join_elems (t # rel)"
    using assms by (intro Clean_join_slash) auto
  then show ?thesis
    using assms by (simp add: filepath_Join_def join_elems_Cons plain_name_def Separator_def)
qed

lemma no_Separator_in_plain: "plain_name n \<Longrightarrow> Separator \<notin> set n"
  by (simp add: plain_name_def)

lemma Dir_join:
  assumes "list_all plain_name ns" and "ns \<noteq> []" and "plain_name n"
  shows "filepath_Dir (join_elems (ns @ [n])) = join_elems ns"
proof -
  have "dropWhile (\<lambda>c. c \<noteq> Separator) (rev n @ Separator # rev (join_elems ns))
          = dropWhile (\<lambda>c. c \<noteq> Separator) (Separator # rev (join_elems ns))"
    using assms(3) by (intro dropWhile_append2) (auto simp: plain_name_def)
  then have "rev (dropWhile (\<lambda>c. c \<noteq> Separator) (rev (join_elems ns @ Separator # n)))
          = join_elems ns @ [Separator]"
    by simp
  then show ?thesis
    using assms by (simp add: filepath_Dir_def join_elems_snoc Clean_join_slash)
qed

lemma last_join_elems:
  "list_all plain_name ns \<Longrightarrow> ns \<noteq> [] \<Longrightarrow> last (join_elems ns) \<noteq> Separator"
proof (induction ns rule: join_elems.induct)
  case 1
  then show ?case by simp
next
  case (2 e)
  then show ?case by (cases e rule: rev_cases) (auto simp: plain_name_def)
next
  case (3 e e' es)
  then show ?case using join_elems_not_Nil [of "e' # es"] by simp
qed

lemma HasSuffix_slash: "strings_HasSuffix s ''/'' = (s \<noteq> [] \<and> last s = Separator)"
proof (cases s rule: rev_cases)
  case Nil
  then show ?thesis by (simp add: strings_HasSuffix_def)
next
  case (snoc xs x)
  then show ?thesis by (auto simp: strings_HasSuffix_def Separator_def)
qed

lemma TrimPrefix_join:
  assumes "rel \<noteq> []"
  shows "strings_TrimPrefix (join_elems (s # rel)) (s @ ''/'') = join_elems rel"
  using assms by (simp add: strings_TrimPrefix_def strings_HasPrefix_def join_elems_Cons Separator_def)

lemma TrimPrefix_self: "strings_TrimPrefix s (s @ ''/'') = s"
  by (simp add: strings_TrimPrefix_def strings_HasPrefix_def)

lemma relative_name_root:
  assumes "plain_name s"
  shows "relative_name s s = s"
  using assms Clean_join [of "[s]"]
  by (simp add: relative_name_def filepath_ToSlash_def TrimPrefix_self filepath_Join_def
      plain_name_def Separator_def)

lemma relative_name_below:
  assumes "plain_name s" and "list_all plain_name rel" and "rel \<noteq> []"
  shows "relative_name s (join_elems (s # rel)) = join_elems rel"
  using assms Clean_join [of rel] join_elems_not_Nil [of rel]
  by (simp add: relative_name_def filepath_ToSlash_def TrimPrefix_join filepath_Join_def
      Separator_def)

lemma join_elems_eq_plain:
  assumes "list_all plain_name rel" and "rel \<noteq> []" and "plain_name s"
  shows "(join_elems rel = s) = (rel = [s])"
proof (cases rel rule: join_elems.cases)
  case 1
  with assms show ?thesis by simp
next
  case (2 e)
  then show ?thesis by simp
next
  case (3 e e' es)
  then have "Separator \<in> set (join_elems rel)" by simp
  with assms(3) 3 show ?thesis by (auto simp: plain_name_def)
qed

subsection \<open>Resolving joined paths\<close>

lemma lookup_append:
  "lookup r (xs @ ys) = (case lookup r xs of None \<Rightarrow> None | Some n \<Rightarrow> lookup n ys)"
proof (induction r xs rule: lookup.induct)
  case (1 n)
  then show ?case by simp
next
  case (2 m d c cs)
  then show ?case by simp
next
  case (3 m es c cs)
  then show ?case by (auto split: option.splits)
qed

lemma lookup_through_Dir:
  assumes "lookup r (xs @ y # ys) = Some n"
  shows "\<exists>m es. lookup r xs = Some (Dir m es)"
proof -
  from assms obtain x where x: "lookup r xs = Some x" and "lookup x (y # ys) = Some n"
    by (auto simp: lookup_append split: option.splits)
  then show ?thesis by (cases x) auto
qed

lemma lookup_parent_Dir:
  assumes "lookup r (cur @ ns) = Some n" and "ns \<noteq> []"
  shows "\<exists>m es. lookup r (cur @ butlast ns) = Some (Dir m es)"
proof -
  from assms(2) have "cur @ ns = (cur @ butlast ns) @ last ns # []" by simp
  with assms(1) show ?thesis using lookup_through_Dir by metis
qed

lemma namei_from_plain:
  assumes "list_all plain_name ns"
    and "ns \<noteq> [] \<Longrightarrow> \<exists>m es. lookup r (cur @ butlast ns) = Some (Dir m es)"
  shows "namei_from r cur ns = Inr (cur @ ns)"
  using assms
proof (induction ns arbitrary: cur)
  case Nil
  then show ?case by simp
next
  case (Cons n ns)
  from Cons.prems(2) obtain m es where b: "lookup r (cur @ butlast (n # ns)) = Some (Dir m es)"
    by auto
  have d: "\<exists>m es. lookup r cur = Some (Dir m es)"
  proof (cases ns)
    case Nil
    with b show ?thesis by simp
  next
    case (Cons n' ns')
    with b have "lookup r (cur @ n # butlast ns) = Some (Dir m es)" by simp
    then show ?thesis by (rule lookup_through_Dir)
  qed
  have s: "step cur n = cur @ [n]"
    using Cons.prems(1) by (simp add: step_def plain_name_def)
  have "namei_from r (cur @ [n]) ns = Inr ((cur @ [n]) @ ns)"
  proof (rule Cons.IH)
    show "list_all plain_name ns" using Cons.prems(1) by simp
    assume "ns \<noteq> []"
    with b show "\<exists>m es. lookup r ((cur @ [n]) @ butlast ns) = Some (Dir m es)" by auto
  qed
  with d s show ?case by auto
qed

lemma start_dir_join:
  "list_all plain_name ns \<Longrightarrow> ns \<noteq> [] \<Longrightarrow> start_dir fs (join_elems ns) = cwd fs"
  by (simp add: start_dir_def hd_join_elems)

lemma namei_join:
  assumes "list_all plain_name ns" and "ns \<noteq> []"
    and "lookup (root fs) (cwd fs @ butlast ns) = Some (Dir m es)"
  shows "namei fs (join_elems ns) = Inr (cwd fs @ ns)"
  using assms namei_from_plain [of ns "root fs" "cwd fs"]
  by (simp add: namei_def join_elems_not_Nil start_dir_join split_join)

lemma os_Stat_join:
  assumes "list_all plain_name ns" and "ns \<noteq> []"
    and "lookup (root fs) (cwd fs @ ns) = Some n"
  shows "os_Stat fs (join_elems ns) = Inr n"
proof -
  from lookup_parent_Dir [OF assms(3,2)] obtain m es where
    "lookup (root fs) (cwd fs @ butlast ns) = Some (Dir m es)" by blast
  from namei_join [OF assms(1,2) this] assms(3) show ?thesis
    by (simp add: os_Stat_def stat_node_def)
qed

lemma os_Stat_join_None:
  assumes "list_all plain_name ns" and "ns \<noteq> []"
    and "lookup (root fs) (cwd fs @ butlast ns) = Some (Dir m es)"
    and "lookup (root fs) (cwd fs @ ns) = None"
  shows "os_Stat fs (join_elems ns) = Inl (PathError ''stat'' (join_elems ns) ENOENT)"
  using namei_join [OF assms(1,2,3)] assms(4) by (simp add: os_Stat_def stat_node_def)

lemma os_Open_join:
  assumes "list_all plain_name ns" and "ns \<noteq> []"
    and "lookup (root fs) (cwd fs @ ns) = Some n" and "owner_read (node_perm n)"
  shows "os_Open fs (join_elems ns) = Inr n"
proof -
  from lookup_parent_Dir [OF assms(3,2)] obtain m es where
    "lookup (root fs) (cwd fs @ butlast ns) = Some (Dir m es)" by blast
  from namei_join [OF assms(1,2) this] assms(3,4) show ?thesis
    by (simp add: os_Open_def stat_node_def)
qed

lemma os_Create_join:
  assumes "list_all plain_name ns" and "ns \<noteq> []"
    and "lookup (root fs) (cwd fs @ butlast ns) = Some (Dir m es)"
    and "lookup (root fs) (cwd fs @ ns) = None"
  shows "os_Create fs (join_elems ns) =
     Inr (fs\<lparr>root := store (root fs) (cwd fs @ ns) (File (apply_umask fs 438) (Bytes []))\<rparr>,
          cwd fs @ ns)"
  using namei_join [OF assms(1,2,3)] assms(4) by (simp add: os_Create_def)

lemma set_child_append:
  "map_of es c = None \<Longrightarrow> set_child c v (es @ [(c, u)]) = es @ [(c, v)]"
  by (induction es) auto

lemma set_child_set_child:
  "set_child c v (set_child c u es) = set_child c v es"
  by (induction es) auto

lemma map_of_append_new: "map_of es c = None \<Longrightarrow> map_of (es @ [(c, v)]) c = Some v"
  by (induction es) auto

lemma store_store: "store (store r loc x) loc y = store r loc y"
proof (induction r loc x arbitrary: y rule: store.induct)
  case (1 n new)
  then show ?case by simp
next
  case (2 m d c cs new)
  then show ?case by simp
next
  case (3 m es c cs new)
  show ?case
  proof (cases "map_of es c")
    case None
    then show ?thesis by (simp add: map_of_append_new set_child_append del: map_of_append)
  next
    case (Some ch)
    with 3 show ?thesis by (simp add: map_of_set_child_same set_child_set_child)
  qed
qed

lemma store_child:
  "map_of cs n = None \<Longrightarrow>
   store (store r loc (Dir p cs)) (loc @ [n]) x = store r loc (Dir p (cs @ [(n, x)]))"
proof (induction r loc "Dir p cs" rule: store.induct)
  case (1 r)
  then show ?case by simp
next
  case (2 m d c cs')
  then show ?case by simp
next
  case (3 m es c cs')
  show ?case
  proof (cases "map_of es c")
    case None
    with 3 show ?thesis by (simp add: map_of_append_new set_child_append del: map_of_append)
  next
    case (Some ch)
    with 3 show ?thesis by (simp add: map_of_set_child_same set_child_set_child)
  qed
qed

lemma mkdir_from_new:
  assumes "list_all plain_name ns" and "ns \<noteq> []"
    and "lookup (root fs) (cur @ butlast ns) = Some (Dir m es)"
    and "lookup (root fs) (cur @ ns) = None"
  shows "mkdir_from fs cur ns perm =
     (fs\<lparr>root := store (root fs) (cur @ ns) (Dir (apply_umask fs perm) [])\<rparr>, None)"
  using assms
proof (induction ns arbitrary: cur)
  case Nil
  then show ?case by simp
next
  case (Cons n ns)
  have s: "step cur n = cur @ [n]"
    using Cons.prems(1) by (simp add: step_def plain_name_def)
  show ?case
  proof (cases ns)
    case Nil
    with Cons.prems s show ?thesis by (simp add: Let_def)
  next
    case (Cons n' ns')
    with Cons.prems(3) have "lookup (root fs) ((cur @ [n]) @ butlast ns) = Some (Dir m es)"
      by simp
    moreover from this Cons have "\<exists>m' es'. lookup (root fs) (cur @ [n]) = Some (Dir m' es')"
      using lookup_parent_Dir [of "root fs" "cur @ [n]" "butlast ns @ [undefined]"]
        lookup_through_Dir [of "root fs" "cur @ [n]" "hd (butlast ns)" "tl (butlast ns)"]
      by (cases "butlast ns") auto
    moreover have "mkdir_from fs (cur @ [n]) ns perm =
        (fs\<lparr>root := store (root fs) ((cur @ [n]) @ ns) (Dir (apply_umask fs perm) [])\<rparr>, None)"
      using Cons.prems calculation(1) Cons by (intro Cons.IH) auto
    ultimately show ?thesis using s by (auto simp: Let_def)
  qed
qed

lemma os_MkdirAll_new:
  assumes "list_all plain_name ns" and "ns \<noteq> []"
    and "lookup (root fs) (cwd fs @ butlast ns) = Some (Dir m es)"
    and "lookup (root fs) (cwd fs @ ns) = None"
  shows "os_MkdirAll fs (join_elems ns) perm =
     (fs\<lparr>root := store (root fs) (cwd fs @ ns) (Dir (apply_umask fs perm) [])\<rparr>, None)"
proof -
  have "\<exists>m' es'. lookup (root fs) (cwd fs) = Some (Dir m' es')"
  proof (cases "butlast ns")
    case Nil
    with assms(3) show ?thesis by simp
  next
    case (Cons a as)
    with assms(3) show ?thesis using lookup_through_Dir [of "root fs" "cwd fs" a as] by simp
  qed
  with assms mkdir_from_new [OF assms(1,2,3,4), of perm] show ?thesis
    by (auto simp: os_MkdirAll_def join_elems_not_Nil start_dir_join split_join)
qed

lemma set_child_same: "map_of es c = Some ch \<Longrightarrow> set_child c ch es = es"
  by (induction es) (auto split: if_splits)

lemma store_same: "lookup r loc = Some x \<Longrightarrow> store r loc x = r"
proof (induction r loc arbitrary: x rule: lookup.induct)
  case (1 n)
  then show ?case by simp
next
  case (2 m d c cs)
  then show ?case by simp
next
  case (3 m es c cs)
  then show ?case by (auto split: option.splits simp: set_child_same)
qed

lemma store_below:
  "lookup r loc = Some old \<Longrightarrow> store (store r (loc @ n # ns) x) loc y = store r loc y"
proof (induction r loc arbitrary: old rule: lookup.induct)
  case (1 r)
  then show ?case by simp
next
  case (2 m d c cs)
  then show ?case by simp
next
  case (3 m es c cs)
  then show ?case
    by (auto split: option.splits simp: map_of_set_child_same set_child_set_child)
qed

lemma lookup_store_child_parent:
  "lookup r loc = Some (Dir p done) \<Longrightarrow> map_of done n = None \<Longrightarrow>
   lookup (store r (loc @ [n]) x) loc = Some (Dir p (done @ [(n, x)]))"
proof (induction r loc rule: lookup.induct)
  case (1 r)
  then show ?case by simp
next
  case (2 m d c cs)
  then show ?case by simp
next
  case (3 m es c cs)
  then show ?case
    by (auto split: option.splits simp: map_of_set_child_same)
qed

subsection \<open>The walk of a valid tree\<close>

lemma until_error_concat:
  assumes "\<And>x w. x \<in> set xs \<Longrightarrow> f x w = (w @ g x, None)"
  shows "until_error f xs w = (w @ concat (map g xs), None)"
  using assms by (induction xs arbitrary: w) auto

lemma set_header_Name_eq:
  assumes "baseDir \<noteq> []" and "baseDir \<noteq> ''.''"
  shows "set_header_Name baseDir path header =
     (if relative_name baseDir path = baseDir then None
      else Some (header\<lparr>h_Name := relative_name baseDir path\<rparr>))"
  using assms by (auto simp: set_header_Name_def relative_name_def Let_def)

lemma walkFn_root:
  assumes "plain_name s"
  shows "createArchive_walkFn fs s s (Some fi) None w = (w, None)"
  using assms relative_name_root [OF assms]
  by (simp add: createArchive_walkFn_def set_header_Name_eq plain_name_def)

lemma walkFn_dir:
  assumes "plain_name s" and "relative_name s path \<noteq> s"
    and "length (relative_name s path) < 65535"
  shows "createArchive_walkFn fs s path (Some (file_info path (Dir m es))) None w =
     (w @ [(\<lparr>h_Name = relative_name s path @ ''/'', h_perm = m, h_dir = True, h_Method = Store\<rparr>,
            Bytes [])], None)"
  using assms
  by (simp add: createArchive_walkFn_def set_header_Name_eq plain_name_def file_info_def
      zip_FileInfoHeader_def zip_CreateHeader_def strings_HasSuffix_def)

lemma zip_Write_last:
  assumes "\<not> strings_HasSuffix (h_Name fh) ''/''"
  shows "zip_Write (w @ [(fh, old)]) d = (w @ [(fh, d)], None)"
  using assms by (simp add: zip_Write_def)

lemma walkFn_file:
  assumes "plain_name s" and "relative_name s path \<noteq> s"
    and "length (relative_name s path) \<le> 65535"
    and "\<not> strings_HasSuffix (relative_name s path) ''/''"
    and "os_Open fs path = Inr (File m d)"
  shows "createArchive_walkFn fs s path (Some (file_info path (File m d))) None w =
     (w @ [(\<lparr>h_Name = relative_name s path, h_perm = m, h_dir = False, h_Method = Deflate\<rparr>, d)],
      None)"
  using assms
  by (simp add: createArchive_walkFn_def set_header_Name_eq plain_name_def file_info_def
      zip_FileInfoHeader_def zip_CreateHeader_def zip_Write_last)

lemma map_of_distinct:
  "distinct (map fst es) \<Longrightarrow> (n, c) \<in> set es \<Longrightarrow> map_of es n = Some c"
  by simp

lemma names_fit_child:
  assumes "names_fit (entries_below rel (Dir m es))" and "e \<in> set es"
  shows "names_fit (entries_below (rel @ [fst e]) (snd e))"
  using assms by (auto simp: names_fit_def list_all_iff)

lemma walk_entries:
  assumes "valid_tree node" and "plain_name s" and "list_all plain_name rel"
    and "rel \<noteq> []" and "rel \<noteq> [s]"
    and "lookup (root fs) (cwd fs @ s # rel) = Some node"
    and "names_fit (entries_below rel node)"
  shows "walk (createArchive_walkFn fs s) (join_elems (s # rel)) node w
           = (w @ entries_below rel node, None)"
  using assms
proof (induction node arbitrary: rel w)
  case (File m d)
  let ?path = "join_elems (s # rel)"
  have r: "relative_name s ?path = join_elems rel"
    using File.prems by (intro relative_name_below) auto
  have n: "join_elems rel \<noteq> s"
    using File.prems join_elems_eq_plain [of rel s] by simp
  have o: "os_Open fs ?path = Inr (File m d)"
    using File.prems os_Open_join [of "s # rel" fs "File m d"] by simp
  have e: "\<not> strings_HasSuffix (join_elems rel) ''/''"
    using File.prems last_join_elems [of rel] by (simp add: HasSuffix_slash)
  have l: "length (join_elems rel) \<le> 65535"
    using File.prems(7) by (simp add: names_fit_def)
  from walkFn_file [of s ?path fs m d w] File.prems(2) r n o e l show ?case by simp
next
  case (Dir m es)
  let ?path = "join_elems (s # rel)"
  have r: "relative_name s ?path = join_elems rel"
    using Dir.prems by (intro relative_name_below) auto
  have n: "join_elems rel \<noteq> s"
    using Dir.prems join_elems_eq_plain [of rel s] by simp
  have l: "length (join_elems rel) < 65535"
    using Dir.prems(7) by (simp add: names_fit_def)
  let ?w1 = "w @ [(\<lparr>h_Name = join_elems rel @ ''/'', h_perm = m, h_dir = True,
                     h_Method = Store\<rparr>, Bytes [])]"
  have cb: "createArchive_walkFn fs s ?path (Some (file_info ?path (Dir m es))) None w
              = (?w1, None)"
    using walkFn_dir [of s ?path fs m es w] Dir.prems(2) r n l by simp
  have ch: "until_error (\<lambda>e. walk (createArchive_walkFn fs s) (filepath_Join [?path, fst e]) (snd e))
              (sort_key fst es) ?w1
            = (?w1 @ concat (map (\<lambda>e. entries_below (rel @ [fst e]) (snd e)) (sort_key fst es)),
               None)"
  proof (rule until_error_concat)
    fix x w' assume "x \<in> set (sort_key fst es)"
    then have x: "x \<in> set es" by simp
    then have p: "plain_name (fst x)" and v: "valid_tree (snd x)"
      using Dir.prems(1) by (auto simp: list_all_iff)
    have j: "filepath_Join [?path, fst x] = join_elems (s # rel @ [fst x])"
      using Join_two [of "s # rel" "fst x"] Dir.prems p by simp
    have m: "map_of es (fst x) = Some (snd x)"
      using Dir.prems(1) x by simp
    have lk: "lookup (root fs) (cwd fs @ s # rel @ [fst x]) = Some (snd x)"
      using lookup_append [of "root fs" "cwd fs @ s # rel" "[fst x]"] Dir.prems(6) m by simp
    have "walk (createArchive_walkFn fs s) (join_elems (s # rel @ [fst x])) (snd x) w'
            = (w' @ entries_below (rel @ [fst x]) (snd x), None)"
    proof (rule Dir.IH)
      show "x \<in> set es" by (rule x)
      show "snd x \<in> Basic_BNFs.snds x" by (cases x) simp
      show "valid_tree (snd x)" by (rule v)
      show "plain_name s" by (rule Dir.prems(2))
      show "list_all plain_name (rel @ [fst x])" using Dir.prems(3) p by simp
      show "rel @ [fst x] \<noteq> []" by simp
      show "rel @ [fst x] \<noteq> [s]" using Dir.prems(4) by (cases rel) auto
      show "lookup (root fs) (cwd fs @ s # rel @ [fst x]) = Some (snd x)" by (rule lk)
      show "names_fit (entries_below (rel @ [fst x]) (snd x))"
        using names_fit_child [OF Dir.prems(7) x] .
    qed
    with j show "walk (createArchive_walkFn fs s) (filepath_Join [?path, fst x]) (snd x) w'
            = (w' @ entries_below (rel @ [fst x]) (snd x), None)" by simp
  qed
  have "owner_read m" using Dir.prems(1) by (simp add: owner_full_def)
  with cb ch show ?case by (simp add: Let_def)
qed

lemma walk_root_entries:
  assumes "valid_tree (Dir m es)" and "plain_name s" and "s \<notin> fst ` set es"
    and "lookup (root fs) (cwd fs @ [s]) = Some (Dir m es)"
    and "names_fit (root_entries (Dir m es))"
  shows "walk (createArchive_walkFn fs s) s (Dir m es) [] = (root_entries (Dir m es), None)"
proof -
  have ch: "until_error (\<lambda>e. walk (createArchive_walkFn fs s) (filepath_Join [s, fst e]) (snd e))
              (sort_key fst es) []
            = ([] @ concat (map (\<lambda>e. entries_below [fst e] (snd e)) (sort_key fst es)), None)"
  proof (rule until_error_concat)
    fix x w' assume "x \<in> set (sort_key fst es)"
    then have x: "x \<in> set es" by simp
    then have p: "plain_name (fst x)" and v: "valid_tree (snd x)"
      using assms(1) by (auto simp: list_all_iff)
    have j: "filepath_Join [s, fst x] = join_elems (s # [fst x])"
      using Join_two [of "[s]" "fst x"] assms(2) p by simp
    have m: "map_of es (fst x) = Some (snd x)"
      using assms(1) x by simp
    have lk: "lookup (root fs) (cwd fs @ s # [fst x]) = Some (snd x)"
      using lookup_append [of "root fs" "cwd fs @ [s]" "[fst x]"] assms(4) m by simp
    have nf: "names_fit (entries_below [fst x] (snd x))"
      using assms(5) x by (auto simp: names_fit_def list_all_iff)
    have ne: "[fst x] \<noteq> [s]" using x assms(3) by auto
    have "walk (createArchive_walkFn fs s) (join_elems (s # [fst x])) (snd x) w'
            = (w' @ entries_below [fst x] (snd x), None)"
      using v assms(2) p ne lk nf by (intro walk_entries) auto
    with j show "walk (createArchive_walkFn fs s) (filepath_Join [s, fst x]) (snd x) w'
            = (w' @ entries_below [fst x] (snd x), None)" by simp
  qed
  have "owner_read m" using assms(1) by (simp add: owner_full_def)
  with ch walkFn_root [OF assms(2)] show ?thesis by (simp add: Let_def)
qed

lemma Base_plain:
  assumes "plain_name s"
  shows "filepath_Base s = s"
proof -
  from assms have "last s \<noteq> Separator" by (cases s rule: rev_cases) (auto simp: plain_name_def)
  then have "strip_trailing_slashes s = s"
    using assms by (cases s rule: rev_cases) (auto simp: strip_trailing_slashes_def plain_name_def)
  moreover have "takeWhile (\<lambda>c. c \<noteq> Separator) (rev s) = rev s"
    using assms by (auto simp: plain_name_def takeWhile_eq_all_conv)
  then have "last_elem s = s" unfolding last_elem_def by (simp only: rev_rev_ident)
  ultimately show ?thesis using assms by (simp add: filepath_Base_def plain_name_def)
qed

lemma join_elems_single: "join_elems [n] = n"
  by simp

subsection \<open>The extraction of the entries of a valid tree\<close>

lemma Unarchive_files_first:
  assumes "ensure_parent fs (filepath_Join [if t = [] then ''./'' else t, h_Name (fst e)])
         = ensure_parent fs' (filepath_Join [if t = [] then ''./'' else t, h_Name (fst e)])"
  shows "Unarchive_files fs t (e # rest) = Unarchive_files fs' t (e # rest)"
  using assms by (simp add: Let_def zip_File_Open_def)

lemma Unarchive_file_entry:
  assumes "t \<noteq> []" and "\<not> header_IsDir h"
    and "ensure_parent fs (filepath_Join [t, h_Name h]) = fs1"
    and "os_Create fs1 (filepath_Join [t, h_Name h]) = Inr (fs2, f)"
  shows "Unarchive_files fs t ((h, d) # rest) = Unarchive_files (write_file fs2 f d) t rest"
  using assms by (simp add: Let_def zip_File_Open_def)

lemma Unarchive_dir_entry:
  assumes "t \<noteq> []" and "header_IsDir h"
    and "ensure_parent fs (filepath_Join [t, h_Name h]) = fs1"
    and "os_MkdirAll fs1 (filepath_Join [t, h_Name h]) (h_perm h) = (fs2, e)"
  shows "Unarchive_files fs t ((h, d) # rest) = Unarchive_files fs2 t rest"
  using assms by (simp add: Let_def zip_File_Open_def)

lemma ensure_parent_exists:
  assumes "list_all plain_name ns" and "ns \<noteq> []" and "plain_name n"
    and "lookup (root fs) (cwd fs @ ns) = Some (Dir m es)"
  shows "ensure_parent fs (join_elems (ns @ [n])) = fs"
  using assms Dir_join [of ns n] os_Stat_join [of ns fs "Dir m es"]
  by (simp add: ensure_parent_def)

lemma ensure_parent_missing:
  assumes "plain_name t" and "plain_name n"
    and "lookup (root fs) (cwd fs) = Some (Dir m es)"
    and "lookup (root fs) (cwd fs @ [t]) = None"
  shows "ensure_parent fs (join_elems [t, n])
           = fs\<lparr>root := store (root fs) (cwd fs @ [t]) (Dir (apply_umask fs 493) [])\<rparr>"
proof -
  have d: "filepath_Dir (join_elems [t, n]) = t"
    using Dir_join [of "[t]" n] assms by simp
  have s: "os_Stat fs t = Inl (PathError ''stat'' t ENOENT)"
    using os_Stat_join_None [of "[t]" fs m es] assms by simp
  have k: "os_MkdirAll fs t 493
             = (fs\<lparr>root := store (root fs) (cwd fs @ [t]) (Dir (apply_umask fs 493) [])\<rparr>, None)"
    using os_MkdirAll_new [of "[t]" fs m es 493] assms by simp
  from d s k show ?thesis by (simp add: ensure_parent_def)
qed

lemma extract_children:
  assumes t: "plain_name t" and rel: "list_all plain_name rel"
    and node: "\<And>e fs' rest' pm pes. e \<in> set cs \<Longrightarrow>
        lookup (root fs') (cwd fs' @ t # rel) = Some (Dir pm pes) \<Longrightarrow>
        lookup (root fs') (cwd fs' @ t # rel @ [fst e]) = None \<Longrightarrow>
        Unarchive_files fs' t (entries_below (rel @ [fst e]) (snd e) @ rest')
          = Unarchive_files
              (fs'\<lparr>root := store (root fs') (cwd fs' @ t # rel @ [fst e])
                               (extracted (umask fs') (snd e))\<rparr>) t rest'"
    and d: "distinct (map fst cs)" and dj: "fst ` set cs \<inter> fst ` set done = {}"
    and at: "lookup (root fs) (cwd fs @ t # rel) = Some (Dir p done)"
  shows "Unarchive_files fs t
           (concat (map (\<lambda>e. entries_below (rel @ [fst e]) (snd e)) cs) @ rest)
         = Unarchive_files
             (fs\<lparr>root := store (root fs) (cwd fs @ t # rel)
                (Dir p (done @ map (\<lambda>e. (fst e, extracted (umask fs) (snd e))) cs))\<rparr>) t rest"
  using node d dj at
proof (induction cs arbitrary: fs "done")
  case Nil
  then show ?case by (simp add: store_same)
next
  case (Cons e cs)
  let ?loc = "cwd fs @ t # rel"
  let ?x = "extracted (umask fs) (snd e)"
  let ?fs1 = "fs\<lparr>root := store (root fs) (?loc @ [fst e]) ?x\<rparr>"
  have free: "map_of done (fst e) = None"
    using Cons.prems(3) by (auto simp: map_of_eq_None_iff)
  have n: "lookup (root fs) (cwd fs @ t # rel @ [fst e]) = None"
    using lookup_append [of "root fs" ?loc "[fst e]"] Cons.prems(4) free by simp
  have 1: "Unarchive_files fs t
             (entries_below (rel @ [fst e]) (snd e)
              @ (concat (map (\<lambda>e. entries_below (rel @ [fst e]) (snd e)) cs) @ rest))
           = Unarchive_files ?fs1 t
               (concat (map (\<lambda>e. entries_below (rel @ [fst e]) (snd e)) cs) @ rest)"
    using Cons.prems(1) [of e fs p "done"] Cons.prems(4) n by simp
  have at1: "lookup (root ?fs1) (cwd ?fs1 @ t # rel) = Some (Dir p (done @ [(fst e, ?x)]))"
    using lookup_store_child_parent [OF Cons.prems(4) free] by simp
  have 2: "Unarchive_files ?fs1 t
             (concat (map (\<lambda>e. entries_below (rel @ [fst e]) (snd e)) cs) @ rest)
           = Unarchive_files
               (?fs1\<lparr>root := store (root ?fs1) (cwd ?fs1 @ t # rel)
                  (Dir p ((done @ [(fst e, ?x)])
                          @ map (\<lambda>e. (fst e, extracted (umask ?fs1) (snd e))) cs))\<rparr>) t rest"
  proof (rule Cons.IH)
    show "distinct (map fst cs)" using Cons.prems(2) by simp
    show "fst ` set cs \<inter> fst ` set (done @ [(fst e, ?x)]) = {}"
      using Cons.prems(2,3) by auto
    show "lookup (root ?fs1) (cwd ?fs1 @ t # rel) = Some (Dir p (done @ [(fst e, ?x)]))"
      by (rule at1)
  next
    fix e' :: "string \<times> node" and fs' :: filesys and rest' pm pes
    assume "e' \<in> set cs"
      and "lookup (root fs') (cwd fs' @ t # rel) = Some (Dir pm pes)"
      and "lookup (root fs') (cwd fs' @ t # rel @ [fst e']) = None"
    then show "Unarchive_files fs' t (entries_below (rel @ [fst e']) (snd e') @ rest')
          = Unarchive_files
              (fs'\<lparr>root := store (root fs') (cwd fs' @ t # rel @ [fst e'])
                               (extracted (umask fs') (snd e'))\<rparr>) t rest'"
      using Cons.prems(1) [of e' fs' pm pes rest'] by simp
  qed
  have 3: "store (root ?fs1) (cwd ?fs1 @ t # rel) y = store (root fs) ?loc y" for y
    using store_below [OF Cons.prems(4), of "fst e" "[]" ?x y] by simp
  from 1 2 3 show ?case by simp
qed

lemma extract_below:
  assumes "valid_tree node" and "plain_name t" and "list_all plain_name rel" and "rel \<noteq> []"
    and "lookup (root fs) (cwd fs @ t # butlast rel) = Some (Dir pm pes)"
    and "lookup (root fs) (cwd fs @ t # rel) = None"
  shows "Unarchive_files fs t (entries_below rel node @ rest)
         = Unarchive_files
             (fs\<lparr>root := store (root fs) (cwd fs @ t # rel) (extracted (umask fs) node)\<rparr>)
             t rest"
  using assms
proof (induction node arbitrary: rel fs rest pm pes)
  case (File m d)
  let ?loc = "cwd fs @ t # rel"
  let ?h = "\<lparr>h_Name = join_elems rel, h_perm = m, h_dir = False, h_Method = Deflate\<rparr>"
  let ?fs2 = "fs\<lparr>root := store (root fs) ?loc (File (apply_umask fs 438) (Bytes []))\<rparr>"
  have tn: "t \<noteq> []" using File.prems(2) by (simp add: plain_name_def)
  have nd: "\<not> header_IsDir ?h"
    using File.prems last_join_elems [of rel] by (simp add: header_IsDir_def HasSuffix_slash)
  have j: "filepath_Join [t, h_Name ?h] = join_elems (t # rel)"
    using File.prems Join_target [of t rel] by simp
  have br: "(t # butlast rel) @ [last rel] = t # rel" using File.prems(4) by simp
  have ep: "ensure_parent fs (join_elems (t # rel)) = fs"
    using ensure_parent_exists [of "t # butlast rel" "last rel" fs pm pes] File.prems br
    by (cases rel rule: rev_cases) auto
  have bl: "butlast (t # rel) = t # butlast rel" using File.prems(4) by simp
  have cr: "os_Create fs (join_elems (t # rel)) = Inr (?fs2, ?loc)"
    using os_Create_join [of "t # rel" fs pm pes] File.prems bl by simp
  have l2: "lookup (root ?fs2) ?loc = Some (File (apply_umask fs 438) (Bytes []))"
    using File.prems(5,6) bl lookup_store_new [of "root fs" ?loc pm pes]
    by (simp add: butlast_append)
  have wf: "write_file ?fs2 ?loc d
              = fs\<lparr>root := store (root fs) ?loc (File (apply_umask fs 438) d)\<rparr>"
    using l2 by (simp add: write_file_def store_store)
  have "Unarchive_files fs t ((?h, d) # rest) = Unarchive_files (write_file ?fs2 ?loc d) t rest"
    using tn nd j ep cr by (intro Unarchive_file_entry) auto
  with wf show ?case by (simp add: apply_umask_def)
next
  case (Dir m es)
  let ?loc = "cwd fs @ t # rel"
  let ?h = "\<lparr>h_Name = join_elems rel @ ''/'', h_perm = m, h_dir = True, h_Method = Store\<rparr>"
  let ?p = "apply_umask fs m"
  let ?fs2 = "fs\<lparr>root := store (root fs) ?loc (Dir ?p [])\<rparr>"
  let ?cs = "sort_key fst es"
  have tn: "t \<noteq> []" using Dir.prems(2) by (simp add: plain_name_def)
  have j: "filepath_Join [t, h_Name ?h] = join_elems (t # rel)"
    using Dir.prems Join_target_slash [of t rel] by simp
  have br: "(t # butlast rel) @ [last rel] = t # rel" using Dir.prems(4) by simp
  have ep: "ensure_parent fs (join_elems (t # rel)) = fs"
    using ensure_parent_exists [of "t # butlast rel" "last rel" fs pm pes] Dir.prems br
    by (cases rel rule: rev_cases) auto
  have bl: "butlast (t # rel) = t # butlast rel" using Dir.prems(4) by simp
  have mk: "os_MkdirAll fs (join_elems (t # rel)) m = (?fs2, None)"
    using os_MkdirAll_new [of "t # rel" fs pm pes m] Dir.prems bl by simp
  have l2: "lookup (root ?fs2) (cwd ?fs2 @ t # rel) = Some (Dir ?p [])"
    using Dir.prems(5,6) bl lookup_store_new [of "root fs" ?loc pm pes]
    by (simp add: butlast_append)
  have 1: "Unarchive_files fs t ((?h, Bytes []) # rest') = Unarchive_files ?fs2 t rest'" for rest'
    using tn j ep mk by (intro Unarchive_dir_entry [where e = None]) (auto simp: header_IsDir_def)
  have 2: "Unarchive_files ?fs2 t
             (concat (map (\<lambda>e. entries_below (rel @ [fst e]) (snd e)) ?cs) @ rest)
           = Unarchive_files
               (?fs2\<lparr>root := store (root ?fs2) (cwd ?fs2 @ t # rel)
                  (Dir ?p ([] @ map (\<lambda>e. (fst e, extracted (umask ?fs2) (snd e))) ?cs))\<rparr>) t rest"
  proof (rule extract_children [OF Dir.prems(2,3)])
    show "distinct (map fst ?cs)" using Dir.prems(1) by (simp add: distinct_map)
    show "fst ` set ?cs \<inter> fst ` set [] = {}" by simp
    show "lookup (root ?fs2) (cwd ?fs2 @ t # rel) = Some (Dir ?p [])" by (rule l2)
  next
    fix e :: "string \<times> node" and fs' :: filesys and rest' pm' pes'
    assume e: "e \<in> set ?cs"
      and p: "lookup (root fs') (cwd fs' @ t # rel) = Some (Dir pm' pes')"
      and f: "lookup (root fs') (cwd fs' @ t # rel @ [fst e]) = None"
    from e have e': "e \<in> set es" by simp
    then have pn: "plain_name (fst e)" and v: "valid_tree (snd e)"
      using Dir.prems(1) by (auto simp: list_all_iff)
    show "Unarchive_files fs' t (entries_below (rel @ [fst e]) (snd e) @ rest')
          = Unarchive_files
              (fs'\<lparr>root := store (root fs') (cwd fs' @ t # rel @ [fst e])
                               (extracted (umask fs') (snd e))\<rparr>) t rest'"
    proof (rule Dir.IH [of e "snd e" "rel @ [fst e]" fs' pm' pes' rest'])
      show "e \<in> set es" by (rule e')
      show "snd e \<in> Basic_BNFs.snds e" by (cases e) simp
      show "valid_tree (snd e)" by (rule v)
      show "plain_name t" by (rule Dir.prems(2))
      show "list_all plain_name (rel @ [fst e])" using Dir.prems(3) pn by simp
      show "rel @ [fst e] \<noteq> []" by simp
      show "lookup (root fs') (cwd fs' @ t # butlast (rel @ [fst e])) = Some (Dir pm' pes')"
        using p by simp
      show "lookup (root fs') (cwd fs' @ t # rel @ [fst e]) = None" by (rule f)
    qed
  qed
  from 1 [of "concat (map (\<lambda>e. entries_below (rel @ [fst e]) (snd e)) ?cs) @ rest"] 2
  show ?case by (simp add: store_store apply_umask_def)
qed

lemma files_below_extracted: "set (files_below (extracted u n)) = set (files_below n)"
proof (induction n)
  case (File m d)
  then show ?case by simp
next
  case (Dir m es)
  have "\<And>e. e \<in> set es \<Longrightarrow> set (files_below (extracted u (snd e))) = set (files_below (snd e))"
  proof -
    fix e :: "string \<times> node" assume "e \<in> set es"
    moreover have "snd e \<in> Basic_BNFs.snds e" by (cases e) simp
    ultimately show "set (files_below (extracted u (snd e))) = set (files_below (snd e))"
      by (rule Dir.IH)
  qed
  then show ?case by (auto simp: image_iff)
qed

lemma files_below_perm: "files_below (Dir p es) = files_below (Dir q es)"
  by simp

lemma entries_below_first:
  "\<exists>x xs. entries_below rel node = x # xs
     \<and> (h_Name (fst x) = join_elems rel \<or> h_Name (fst x) = join_elems rel @ ''/'')"
  by (cases node) auto

lemma Unarchive_files_valid_tree:
  assumes t: "plain_name t" and valid: "valid_tree (Dir m es)"
    and cwd: "lookup (root fs) (cwd fs) = Some (Dir cm ces)"
    and tfree: "lookup (root fs) (cwd fs @ [t]) = None"
  shows "Unarchive_files fs t (root_entries (Dir m es)) =
     ((if es = [] then fs
       else fs\<lparr>root := store (root fs) (cwd fs @ [t])
                  (Dir (apply_umask fs 493)
                     (map (\<lambda>e. (fst e, extracted (umask fs) (snd e))) (sort_key fst es)))\<rparr>),
      None)"
proof (cases "sort_key fst es")
  case Nil
  then have "es = []" by (metis length_sort list.size(3) length_0_conv)
  then show ?thesis by simp
next
  case (Cons e1 cs)
  then have ne: "es \<noteq> []" by auto
  let ?loc = "cwd fs @ [t]"
  let ?p = "apply_umask fs 493"
  let ?fsT = "fs\<lparr>root := store (root fs) ?loc (Dir ?p [])\<rparr>"
  let ?entries = "concat (map (\<lambda>e. entries_below ([] @ [fst e]) (snd e)) (sort_key fst es))"
  have e1: "e1 \<in> set es" using Cons by (metis list.set_intros(1) set_sort)
  then have p1: "plain_name (fst e1)" using valid by (auto simp: list_all_iff)
  obtain x xs where x: "entries_below [fst e1] (snd e1) = x # xs"
    and nx: "h_Name (fst x) = fst e1 \<or> h_Name (fst x) = fst e1 @ ''/''"
    using entries_below_first [of "[fst e1]" "snd e1"] by auto
  have jx: "filepath_Join [t, h_Name (fst x)] = join_elems [t, fst e1]"
    using nx Join_target [of t "[fst e1]"] Join_target_slash [of t "[fst e1]"] t p1 by auto
  have lT: "lookup (root ?fsT) (cwd ?fsT @ [t]) = Some (Dir ?p [])"
    using tfree cwd by (simp add: lookup_store_new)
  have ep1: "ensure_parent fs (join_elems [t, fst e1]) = ?fsT"
    using t p1 cwd tfree by (rule ensure_parent_missing)
  have ep2: "ensure_parent ?fsT (join_elems ([t] @ [fst e1])) = ?fsT"
    using t p1 lT by (intro ensure_parent_exists) auto
  have tn: "t \<noteq> []" using t by (simp add: plain_name_def)
  have en: "?entries = x # (xs @ concat (map (\<lambda>e. entries_below ([] @ [fst e]) (snd e)) cs))"
    using Cons x by simp
  have 1: "Unarchive_files fs t ?entries = Unarchive_files ?fsT t ?entries"
    unfolding en using jx ep1 ep2 tn by (intro Unarchive_files_first) simp
  have 2: "Unarchive_files ?fsT t (?entries @ [])
           = Unarchive_files
               (?fsT\<lparr>root := store (root ?fsT) (cwd ?fsT @ t # [])
                  (Dir ?p ([] @ map (\<lambda>e. (fst e, extracted (umask ?fsT) (snd e)))
                                 (sort_key fst es)))\<rparr>) t []"
  proof (rule extract_children [OF t])
    show "list_all plain_name []" by simp
    show "distinct (map fst (sort_key fst es))" using valid by (simp add: distinct_map)
    show "fst ` set (sort_key fst es) \<inter> fst ` set [] = {}" by simp
    show "lookup (root ?fsT) (cwd ?fsT @ t # []) = Some (Dir ?p [])" using lT by simp
  next
    fix e :: "string \<times> node" and fs' :: filesys and rest' pm pes
    assume e: "e \<in> set (sort_key fst es)"
      and p: "lookup (root fs') (cwd fs' @ t # []) = Some (Dir pm pes)"
      and f: "lookup (root fs') (cwd fs' @ t # [] @ [fst e]) = None"
    from e have "e \<in> set es" by simp
    then have pn: "plain_name (fst e)" and v: "valid_tree (snd e)"
      using valid by (auto simp: list_all_iff)
    show "Unarchive_files fs' t (entries_below ([] @ [fst e]) (snd e) @ rest')
          = Unarchive_files
              (fs'\<lparr>root := store (root fs') (cwd fs' @ t # [] @ [fst e])
                               (extracted (umask fs') (snd e))\<rparr>) t rest'"
      using extract_below [of "snd e" t "[fst e]" fs' pm pes rest'] v t pn p f by simp
  qed
  from 1 2 ne show ?thesis by (simp add: store_store)
qed

section \<open>Archive: the arguments\<close>

text \<open>
  Claim C7.  When the source or the target is the empty string, \<^verbatim>\<open>Archive\<close> returns
  one of its two argument errors (the one for the target when both are empty) and does
  nothing else: the file system it returns is the one it was given, whatever that is,
  so nothing was created, and the error does not depend on anything that could have
  been read.
\<close>

theorem Archive_empty_argument:
  assumes "source = [] \<or> target = []"
  shows "Archive fs source target
           = (fs, Some (if target = [] then ErrTargetEmpty else ErrSourceEmpty))"
  using assms by (auto simp: Archive_def)

theorem Archive_empty_argument_witness:
  "Archive fs_hello [] ''out.zip'' = (fs_hello, Some ErrSourceEmpty)
   \<and> Archive fs_hello ''a'' [] = (fs_hello, Some ErrTargetEmpty)"
  using Archive_empty_argument [of "[]" "''out.zip''" fs_hello]
    Archive_empty_argument [of "''a''" "[]" fs_hello]
  by (simp add: Archive_def)

section \<open>Archive: a source that does not exist\<close>

text \<open>
  Claim C6, as amended.  \<^verbatim>\<open>Archive\<close> creates the target before it examines the
  source.  When the arguments are not empty, the target can be created, and
  \<^verbatim>\<open>os.Stat\<close> then reports that the source does not exist, \<^verbatim>\<open>Archive\<close> returns
  that error, for which \<^verbatim>\<open>os.IsNotExist\<close> holds, and the target is left as a
  container with no entry.
\<close>

theorem Archive_missing_source:
  assumes "source \<noteq> []" and "target \<noteq> []"
    and "os_Create fs target = Inr (fs1, zipfile)"
    and "os_Stat fs1 source = Inl (PathError ''stat'' source ENOENT)"
  shows "snd (Archive fs source target) = Some (PathError ''stat'' source ENOENT)
       \<and> os_IsNotExist (PathError ''stat'' source ENOENT)
       \<and> (\<exists>m. lookup (root (fst (Archive fs source target))) zipfile = Some (File m (Zip [])))"
proof -
  from assms have a: "Archive fs source target =
      (write_file fs1 zipfile (Zip []), Some (PathError ''stat'' source ENOENT))"
    by (simp add: Archive_def createArchive_def)
  from os_Create_lookup [OF assms(3)] obtain m where
    "lookup (root fs1) zipfile = Some (File m (Bytes []))" ..
  then have "lookup (root (write_file fs1 zipfile (Zip []))) zipfile = Some (File m (Zip []))"
    by (rule write_file_lookup)
  with a show ?thesis by simp
qed

text \<open>The theorem at the source \<open>nosuch\<close> and the target \<open>out.zip\<close>.\<close>

theorem Archive_missing_source_witness:
  "snd (Archive fs_hello ''nosuch'' ''out.zip'') = Some (PathError ''stat'' ''nosuch'' ENOENT)
   \<and> (\<exists>m. lookup (root (fst (Archive fs_hello ''nosuch'' ''out.zip''))) [''w'', ''out.zip'']
         = Some (File m (Zip [])))"
proof -
  have c: "os_Create fs_hello ''out.zip'' =
      Inr (in_w [(''a'', Dir 493 [(''b.txt'', File 420 (Bytes ''hello''))]),
                 (''out.zip'', File 420 (Bytes []))], [''w'', ''out.zip''])"
    by (simp add: fs_hello_def path_defs os_defs in_w_def)
  have s: "os_Stat (in_w [(''a'', Dir 493 [(''b.txt'', File 420 (Bytes ''hello''))]),
                 (''out.zip'', File 420 (Bytes []))]) ''nosuch''
      = Inl (PathError ''stat'' ''nosuch'' ENOENT)"
    by (simp add: path_defs os_defs in_w_def)
  from Archive_missing_source [OF _ _ c s] show ?thesis by simp
qed

text \<open>
  Claim C6 as stated fails in two ways.  When source and target are the same missing
  path, creating the target makes the source exist: \<^verbatim>\<open>Archive\<close> returns nil and the
  container has an entry.  When the target is a directory, the error returned is the
  one of \<^verbatim>\<open>os.Create\<close>, which is no not-exist error.
\<close>

theorem Archive_missing_source_counterexample:
  "os_Stat fs_hello ''x.zip'' = Inl (PathError ''stat'' ''x.zip'' ENOENT)
   \<and> snd (Archive fs_hello ''x.zip'' ''x.zip'') = None
   \<and> entry_names (fst (Archive fs_hello ''x.zip'' ''x.zip'')) ''x.zip'' = [''x.zip'']
   \<and> os_Stat fs_hello ''nosuch'' = Inl (PathError ''stat'' ''nosuch'' ENOENT)
   \<and> snd (Archive fs_hello ''nosuch'' ''a'') = Some (PathError ''open'' ''a'' EISDIR)"
  by (simp add: fs_hello_def path_defs os_defs zip_defs Let_def)

section \<open>Archive: the entries of the container\<close>

text \<open>
  Claim C2, as amended.  The directory \<open>a\<close> holds the one file \<open>b.txt\<close> with the
  content \<open>hello\<close>.  \<^verbatim>\<open>Archive\<close> of the source path \<open>a\<close> returns nil and leaves a
  container with exactly one entry: the file entry \<open>b.txt\<close>, method Deflate, content
  \<open>hello\<close>.  The root directory gets no entry (the root directory check of line 129),
  and the base name is no part of the name of the file (the prefix trimmed on line 125).
\<close>

theorem Archive_hello_one_entry:
  "Archive fs_hello ''a'' ''out.zip'' =
     (in_w [(''a'', Dir 493 [(''b.txt'', File 420 (Bytes ''hello''))]),
            (''out.zip'', File 420 (Zip
               [(\<lparr>h_Name = ''b.txt'', h_perm = 420, h_dir = False, h_Method = Deflate\<rparr>,
                 Bytes ''hello'')]))],
      None)"
  by (simp add: fs_hello_def path_defs os_defs zip_defs Let_def)

text \<open>
  Claim C2 as stated fails there: the names of the entries are not \<open>a/\<close> and
  \<open>a/b.txt\<close>.
\<close>

theorem Archive_hello_counterexample:
  "entry_names (fst (Archive fs_hello ''a'' ''out.zip'')) ''out.zip'' \<noteq> [''a/'', ''a/b.txt'']"
  by (simp add: fs_hello_def path_defs os_defs zip_defs Let_def)

text \<open>
  The names \<open>a/\<close> and \<open>a/b.txt\<close> are what the source path \<open>a/.\<close> gives: its base name
  is \<open>.\<close>, and line 120 joins the walked paths under it.
\<close>

lemma Archive_hello_dot_source:
  "entry_names (fst (Archive fs_hello ''a/.'' ''out.zip'')) ''out.zip'' = [''a/'', ''a/b.txt'']"
  by (simp add: fs_hello_def path_defs os_defs zip_defs Let_def)

text \<open>
  Claim C3 at an absolute source path.  \<^verbatim>\<open>Archive\<close> of \<open>/w/a\<close> (the same directory)
  writes the root directory and the file under names that start with the separator:
  the prefix \<open>a/\<close> that line 125 trims is no prefix of the paths of this walk.
\<close>

theorem Archive_absolute_source_names:
  "Archive fs_hello ''/w/a'' ''out.zip'' =
     (in_w [(''a'', Dir 493 [(''b.txt'', File 420 (Bytes ''hello''))]),
            (''out.zip'', File 420 (Zip
               [(\<lparr>h_Name = ''/w/a/'', h_perm = 493, h_dir = True, h_Method = Store\<rparr>,
                 Bytes []),
                (\<lparr>h_Name = ''/w/a/b.txt'', h_perm = 420, h_dir = False, h_Method = Deflate\<rparr>,
                 Bytes ''hello'')]))],
      None)"
  by (simp add: fs_hello_def path_defs os_defs zip_defs Let_def)

text \<open>
  Claim C5, as amended.  Let the source be a directory whose base name is not \<open>.\<close>,
  and let the target have been created.  Then a visited path whose computed name is
  the base name is skipped (the callback returns nil and writes nothing), and
  \<^verbatim>\<open>Archive\<close> leaves a container in which no entry is an entry for the base name: no
  file entry with that name, and no directory entry with that name and a slash.
\<close>

theorem Archive_skips_base_name:
  assumes "source \<noteq> []" and "target \<noteq> []"
    and "os_Create fs target = Inr (fs1, zipfile)"
    and "os_Stat fs1 source = Inr info" and "node_IsDir info"
    and "filepath_Base source \<noteq> ''.''"
  shows "(\<forall>path fi archive. relative_name (filepath_Base source) path = filepath_Base source \<longrightarrow>
            createArchive_walkFn fs1 (filepath_Base source) path (Some fi) None archive
              = (archive, None))
       \<and> (\<exists>files. Archive fs source target = (write_file fs1 zipfile (Zip files), None)
                  \<and> no_base_entry (filepath_Base source) files)"
proof -
  let ?b = "filepath_Base source"
  have b: "?b \<noteq> []" "?b \<noteq> ''.''" using assms(6) by (simp_all add: Base_not_Nil)
  have 1: "\<forall>path fi archive. relative_name ?b path = ?b \<longrightarrow>
      createArchive_walkFn fs1 ?b path (Some fi) None archive = (archive, None)"
  proof (intro allI impI)
    fix path fi archive assume "relative_name ?b path = ?b"
    then have "set_header_Name ?b path (zip_FileInfoHeader fi) = None"
      using set_header_Name_None [OF b] by simp
    then show "createArchive_walkFn fs1 ?b path (Some fi) None archive = (archive, None)"
      by (simp add: createArchive_walkFn_def)
  qed
  let ?files = "fst (filepath_Walk fs1 source (createArchive_walkFn fs1 ?b) [])"
  have "Archive fs source target = (write_file fs1 zipfile (Zip ?files), None)"
    using assms by (simp add: Archive_def createArchive_def Let_def)
  moreover have "no_base_entry ?b ?files" by (rule Walk_no_base_entry [OF b])
  ultimately show ?thesis using 1 by blast
qed

text \<open>
  The theorem at the directory \<open>a\<close> that holds the file \<open>b.txt\<close>: the walk visits the
  root \<open>a\<close> first, its computed name is \<open>a\<close>, the base name, and it is skipped.
\<close>

theorem Archive_skips_base_name_witness:
  "relative_name ''a'' ''a'' = ''a''
   \<and> createArchive_walkFn (after_Create fs_hello ''out.zip'') ''a'' ''a''
        (Some (file_info ''a'' (Dir 493 [(''b.txt'', File 420 (Bytes ''hello''))]))) None []
       = ([], None)
   \<and> (\<exists>files. Archive fs_hello ''a'' ''out.zip''
                 = (write_file (after_Create fs_hello ''out.zip'') [''w'', ''out.zip'']
                      (Zip files), None)
               \<and> no_base_entry ''a'' files)"
proof -
  let ?fs1 = "in_w [(''a'', Dir 493 [(''b.txt'', File 420 (Bytes ''hello''))]),
                    (''out.zip'', File 420 (Bytes []))]"
  have c: "os_Create fs_hello ''out.zip'' = Inr (?fs1, [''w'', ''out.zip''])"
    by (simp add: fs_hello_def path_defs os_defs in_w_def)
  have s: "os_Stat ?fs1 ''a'' = Inr (Dir 493 [(''b.txt'', File 420 (Bytes ''hello''))])"
    by (simp add: path_defs os_defs in_w_def)
  have b: "filepath_Base ''a'' = ''a''" by (simp add: path_defs)
  have r: "relative_name ''a'' ''a'' = ''a''" by (simp add: relative_name_def path_defs)
  have a: "after_Create fs_hello ''out.zip'' = ?fs1" by (simp add: after_Create_def c)
  from Archive_skips_base_name [of "''a''" "''out.zip''", OF _ _ c s] b r a
  show ?thesis by simp
qed

text \<open>
  Claim C5 as stated fails at the source \<open>.\<close>: the base name is \<open>.\<close>, the root directory
  check is not reached (line 118), and the root directory is written as the entry
  \<open>./\<close>.
\<close>

theorem Archive_dot_counterexample:
  "filepath_Base ''.'' = ''.''
   \<and> zip_OpenReader (fst (Archive fs_dot ''.'' ''/out.zip'')) ''/out.zip''
       = Inr [(\<lparr>h_Name = ''./'', h_perm = 493, h_dir = True, h_Method = Store\<rparr>, Bytes []),
              (\<lparr>h_Name = ''b.txt'', h_perm = 420, h_dir = False, h_Method = Deflate\<rparr>,
               Bytes ''hello'')]
   \<and> is_base_entry ''.'' \<lparr>h_Name = ''./'', h_perm = 493, h_dir = True, h_Method = Store\<rparr>"
  by (simp add: fs_dot_def is_base_entry_def path_defs os_defs zip_defs Let_def)

text \<open>
  The container of a valid tree.  Let the source \<open>s\<close> and the target \<open>z\<close> be different
  plain names in the working directory, which its owner may write and search, \<open>s\<close> a
  valid tree in which no entry of the root has the name \<open>s\<close>, and \<open>z\<close> not there yet.
  Then \<^verbatim>\<open>Archive\<close> returns nil and leaves at \<open>z\<close> the container with the entries of
  the tree, named by their paths relative to the root of the tree.

  The model checks the read bit only.  The write and search bits of the working
  directory and of the directories of the tree are asked for because the kernel
  checks them, so that the statement is about calls that the kernel lets through.
\<close>

theorem Archive_valid_tree:
  assumes s: "plain_name s" and z: "plain_name z" and sz: "s \<noteq> z"
    and cwd: "lookup (root fs) (cwd fs) = Some (Dir cm ces)"
    and src: "lookup (root fs) (cwd fs @ [s]) = Some (Dir m es)"
    and valid: "valid_tree (Dir m es)" and inner: "s \<notin> fst ` set es"
    and zfree: "lookup (root fs) (cwd fs @ [z]) = None"
    and fit: "names_fit (root_entries (Dir m es))"
    and cw: "owner_write cm" and cs: "owner_search cm"
  shows "Archive fs s z =
     (fs\<lparr>root := store (root fs) (cwd fs @ [z])
                     (File (apply_umask fs 438) (Zip (root_entries (Dir m es))))\<rparr>, None)"
proof -
  let ?zloc = "cwd fs @ [z]"
  let ?p = "apply_umask fs 438"
  let ?fs1 = "fs\<lparr>root := store (root fs) ?zloc (File ?p (Bytes []))\<rparr>"
  have c: "os_Create fs z = Inr (?fs1, ?zloc)"
    using os_Create_join [of "[z]" fs cm ces] z cwd zfree by simp
  have l1: "lookup (root ?fs1) (cwd ?fs1 @ [s]) = Some (Dir m es)"
    using src sz lookup_store_sibling [of z s "root fs" "cwd fs"] by simp
  have st: "os_Stat ?fs1 s = Inr (Dir m es)"
    using os_Stat_join [of "[s]" ?fs1 "Dir m es"] s l1 by simp
  have ls: "os_Lstat ?fs1 s = Inr (Dir m es)"
    using st by (simp add: os_Stat_def os_Lstat_def stat_node_def split: sum.splits option.splits)
  have w: "walk (createArchive_walkFn ?fs1 s) s (Dir m es) [] = (root_entries (Dir m es), None)"
    using valid s inner l1 fit by (rule walk_root_entries)
  have zl: "lookup (root ?fs1) ?zloc = Some (File ?p (Bytes []))"
    using zfree cwd by (simp add: lookup_store_new)
  have wf: "write_file ?fs1 ?zloc (Zip (root_entries (Dir m es)))
              = fs\<lparr>root := store (root fs) ?zloc (File ?p (Zip (root_entries (Dir m es))))\<rparr>"
    using zl by (simp add: write_file_def store_store)
  from s z have "s \<noteq> []" "z \<noteq> []" by (simp_all add: plain_name_def)
  then show ?thesis
    using c st ls w wf Base_plain [OF s]
    by (simp add: Archive_def createArchive_def filepath_Walk_def Let_def)
qed

section \<open>Archive, then Unarchive\<close>

text \<open>
  Claim C1 at a directory that holds a file with its own name.  The directory \<open>a\<close>
  holds the files \<open>a\<close> and \<open>b.txt\<close>.  Both calls return nil, and the target holds
  \<open>b.txt\<close> only: for the path \<open>a/a\<close> line 125 computes the name \<open>a\<close>, the base name,
  and the root directory check drops the file.
\<close>

theorem roundtrip_same_name_loses_file:
  "files_at fs_same_name ''a'' = [([''a''], Bytes ''x''), ([''b.txt''], Bytes ''hello'')]
   \<and> snd (roundtrip fs_same_name ''a'' ''out.zip'' ''t'') = (None, None)
   \<and> files_at (fst (roundtrip fs_same_name ''a'' ''out.zip'' ''t'')) ''t''
       = [([''b.txt''], Bytes ''hello'')]"
  by (simp add: fs_same_name_def path_defs os_defs zip_defs Let_def)

text \<open>
  The round trip of a valid tree.  Let the source \<open>s\<close>, the zip file \<open>z\<close> and the target
  \<open>t\<close> be three different plain names in the working directory, which its owner may
  write and search, \<open>s\<close> a valid tree in which no entry of the root has the name \<open>s\<close>,
  \<open>z\<close> and \<open>t\<close> not there yet, and let the umask leave the owner the right to read the
  zip file and all three rights on the directories that are made.  Then both calls
  return nil, and the files below the target are the files of the tree: the same
  relative paths with the same contents.

  As before, the hypotheses on the write and search bits are there for the kernel: the
  model checks the read bit only.
\<close>

theorem roundtrip_valid_tree:
  assumes s: "plain_name s" and z: "plain_name z" and t: "plain_name t"
    and sz: "s \<noteq> z" and st: "s \<noteq> t" and zt: "z \<noteq> t"
    and cwd: "lookup (root fs) (cwd fs) = Some (Dir cm ces)"
    and src: "lookup (root fs) (cwd fs @ [s]) = Some (Dir m es)"
    and valid: "valid_tree (Dir m es)" and inner: "s \<notin> fst ` set es"
    and zfree: "lookup (root fs) (cwd fs @ [z]) = None"
    and tfree: "lookup (root fs) (cwd fs @ [t]) = None"
    and fit: "names_fit (root_entries (Dir m es))"
    and um: "owner_read (apply_umask fs 438)"
    and cw: "owner_write cm" and cs: "owner_search cm"
    and ud: "owner_full (apply_umask fs 448)"
  shows "snd (roundtrip fs s z t) = (None, None)
       \<and> set (files_at (fst (roundtrip fs s z t)) t) = set (files_at fs s)"
proof -
  let ?F = "File (apply_umask fs 438) (Zip (root_entries (Dir m es)))"
  let ?fsA = "fs\<lparr>root := store (root fs) (cwd fs @ [z]) ?F\<rparr>"
  let ?D = "Dir (apply_umask fs 493)
              (map (\<lambda>e. (fst e, extracted (umask fs) (snd e))) (sort_key fst es))"
  let ?fsB = "if es = [] then ?fsA else ?fsA\<lparr>root := store (root ?fsA) (cwd fs @ [t]) ?D\<rparr>"
  have a: "Archive fs s z = (?fsA, None)"
    using s z sz cwd src valid inner zfree fit cw cs by (rule Archive_valid_tree)
  have mz: "map_of ces z = None"
    using zfree cwd lookup_append [of "root fs" "cwd fs" "[z]"] by (simp split: option.splits)
  have cA: "lookup (root ?fsA) (cwd ?fsA) = Some (Dir cm (ces @ [(z, ?F)]))"
    using lookup_store_child_parent [OF cwd mz] by simp
  have zA: "lookup (root ?fsA) (cwd ?fsA @ [z]) = Some ?F"
    using zfree cwd by (simp add: lookup_store_new)
  have tA: "lookup (root ?fsA) (cwd ?fsA @ [t]) = None"
    using tfree zt lookup_store_sibling [of z t "root fs" "cwd fs"] by simp
  have o: "zip_OpenReader ?fsA z = Inr (root_entries (Dir m es))"
    using os_Open_join [of "[z]" ?fsA ?F] z zA um by (simp add: zip_OpenReader_def)
  have u: "Unarchive ?fsA z t = (?fsB, None)"
    using o Unarchive_files_valid_tree [OF t valid cA tA]
    by (simp add: Unarchive_def apply_umask_def)
  have r: "roundtrip fs s z t = (?fsB, None, None)"
    using a u by (simp add: roundtrip_def)
  have fs: "files_at fs s = files_below (Dir m es)"
    using os_Stat_join [of "[s]" fs "Dir m es"] s src by (simp add: files_at_def)
  have ft: "set (files_at ?fsB t) = set (files_below (Dir m es))"
  proof (cases "es = []")
    case True
    then show ?thesis
      using os_Stat_join_None [of "[t]" ?fsA] t cA tA by (simp add: files_at_def)
  next
    case False
    have "lookup (root ?fsB) (cwd ?fsB @ [t]) = Some ?D"
      using False tA cA by (simp add: lookup_store_new)
    then have "files_at ?fsB t = files_below ?D"
      using os_Stat_join [of "[t]" ?fsB ?D] t by (simp add: files_at_def)
    moreover have "set (files_below ?D) = set (files_below (extracted (umask fs) (Dir m es)))"
      by simp
    ultimately show ?thesis using files_below_extracted [of "umask fs" "Dir m es"] by simp
  qed
  from r fs ft show ?thesis by simp
qed

text \<open>The round trip of a tree with nested directories.\<close>

lemma roundtrip_nested:
  "snd (roundtrip fs_nested ''a'' ''out.zip'' ''t'') = (None, None)
   \<and> set (files_at (fst (roundtrip fs_nested ''a'' ''out.zip'' ''t'')) ''t'')
       = {([''b.txt''], Bytes ''hello''), ([''sub'', ''c.txt''], Bytes ''x'')}"
proof -
  let ?es = "[(''sub'', Dir 493 [(''c.txt'', File 420 (Bytes ''x'')), (''empty'', Dir 493 [])]),
              (''b.txt'', File 420 (Bytes ''hello''))]"
  have n: "plain_name ''a''" "plain_name ''out.zip''" "plain_name ''t''"
    by (simp_all add: plain_name_def Separator_def)
  have c: "lookup (root fs_nested) (cwd fs_nested) = Some (Dir 493 [(''a'', Dir 493 ?es)])"
    by (simp add: fs_nested_def in_w_def)
  have a: "lookup (root fs_nested) (cwd fs_nested @ [''a'']) = Some (Dir 493 ?es)"
    by (simp add: fs_nested_def in_w_def)
  have v: "valid_tree (Dir 493 ?es)"
    by (simp add: owner_full_def owner_read_def owner_write_def owner_search_def plain_name_def
        Separator_def)
  have i: "''a'' \<notin> fst ` set ?es" by simp
  have z: "lookup (root fs_nested) (cwd fs_nested @ [''out.zip'']) = None"
    and t: "lookup (root fs_nested) (cwd fs_nested @ [''t'']) = None"
    by (simp_all add: fs_nested_def in_w_def)
  have f: "names_fit (root_entries (Dir 493 ?es))"
    by (simp add: names_fit_def Separator_def)
  have u: "owner_read (apply_umask fs_nested 438)"
    by (simp add: fs_nested_def in_w_def apply_umask_def owner_read_def)
  have w: "owner_write 493" "owner_search 493" "owner_full (apply_umask fs_nested 448)"
    by (simp_all add: fs_nested_def in_w_def apply_umask_def owner_full_def owner_read_def
        owner_write_def owner_search_def)
  have s: "files_at fs_nested ''a''
             = [([''sub'', ''c.txt''], Bytes ''x''), ([''b.txt''], Bytes ''hello'')]"
    by (simp add: fs_nested_def path_defs os_defs files_at_def in_w_def)
  from roundtrip_valid_tree [OF n _ _ _ c a v i z t f u w] s show ?thesis by auto
qed

section \<open>Archive: errors of the walk\<close>

text \<open>
  After the target was created and the source examined, \<^verbatim>\<open>createArchive\<close> returns
  nil: the value of the walk is dropped.
\<close>

lemma createArchive_returns_nil:
  assumes "os_Create fs target = Inr (fs1, zipfile)" and "os_Stat fs1 source = Inr info"
  shows "snd (createArchive fs source target) = None"
  using assms by (simp add: createArchive_def Let_def)

text \<open>
  Claim C4 at a file that cannot be opened.  In the directory \<open>a\<close> the file \<open>b.txt\<close>
  has no read bit.  The walk stops at it with the error of \<^verbatim>\<open>os.Open\<close> (the file
  \<open>c.txt\<close> is not visited, the entry \<open>b.txt\<close> is left without content), and
  \<^verbatim>\<open>Archive\<close> returns nil.
\<close>

theorem Archive_hides_walk_error:
  "snd (filepath_Walk (after_Create fs_unreadable ''out.zip'') ''a''
          (createArchive_walkFn (after_Create fs_unreadable ''out.zip'') ''a'') [])
     = Some (PathError ''open'' ''a/b.txt'' EACCES)
   \<and> snd (Archive fs_unreadable ''a'' ''out.zip'') = None
   \<and> zip_OpenReader (fst (Archive fs_unreadable ''a'' ''out.zip'')) ''out.zip''
       = Inr [(\<lparr>h_Name = ''b.txt'', h_perm = 0, h_dir = False, h_Method = Deflate\<rparr>, Bytes [])]"
  by (simp add: fs_unreadable_def path_defs os_defs zip_defs Let_def)

section \<open>Unarchive\<close>

text \<open>
  A directory entry never makes \<^verbatim>\<open>Unarchive\<close> return an error: the values of
  \<^verbatim>\<open>os.MkdirAll\<close> are not looked at.
\<close>

lemma Unarchive_files_directories_nil:
  "list_all (\<lambda>file. header_IsDir (fst file)) files \<Longrightarrow>
   snd (Unarchive_files fs target files) = None"
  by (induction files arbitrary: fs) (auto simp: zip_File_Open_def Let_def)

text \<open>
  Claim C8 at a directory entry that cannot be made.  The container holds the
  directory entry \<open>x/\<close> and the file entry \<open>y.txt\<close>; in the target \<open>t\<close> the name \<open>x\<close>
  is a regular file.  \<^verbatim>\<open>os.MkdirAll\<close> fails for \<open>t/x\<close>; \<^verbatim>\<open>Unarchive\<close> goes on,
  extracts \<open>y.txt\<close> and returns nil.
\<close>

theorem Unarchive_ignores_MkdirAll_error:
  "snd (os_MkdirAll fs_blocked ''t/x'' 493) = Some (PathError ''mkdir'' ''t/x'' ENOTDIR)
   \<and> snd (Unarchive fs_blocked ''in.zip'' ''t'') = None
   \<and> files_at (fst (Unarchive fs_blocked ''in.zip'' ''t'')) ''t''
       = [([''x''], Bytes ''old''), ([''y.txt''], Bytes ''hello'')]"
  by (simp add: fs_blocked_def path_defs os_defs zip_defs Let_def)

text \<open>
  Claim C10.  The extraction path is \<^verbatim>\<open>filepath.Join(targetDir, file.Name)\<close> and is
  used as it is.  For every plain name \<open>n\<close> and every target \<open>t\<close> that is a plain name
  in the working directory, a file entry with the name \<open>../n\<close> has the extraction path
  \<open>n\<close>: \<^verbatim>\<open>Unarchive\<close> returns nil and has created the file \<open>n\<close> with the content of
  the entry in the working directory, next to the target, and what is at the target
  is as before.
\<close>

theorem Unarchive_dotdot_escapes:
  assumes n: "plain_name n" and t: "plain_name t" and nt: "n \<noteq> t"
    and cwd: "lookup (root fs) (cwd fs) = Some (Dir m es)"
    and free: "lookup (root fs) (cwd fs @ [n]) = None"
    and rd: "zip_OpenReader fs source = Inr [(h, d)]"
    and name: "h_Name h = ''../'' @ n" and nd: "\<not> header_IsDir h"
  shows "filepath_Join [t, h_Name h] = n
       \<and> snd (Unarchive fs source t) = None
       \<and> (\<exists>m'. lookup (root (fst (Unarchive fs source t))) (cwd fs @ [n]) = Some (File m' d))
       \<and> lookup (root (fst (Unarchive fs source t))) (cwd fs @ [t]) = lookup (root fs) (cwd fs @ [t])"
proof -
  let ?loc = "cwd fs @ [n]"
  let ?fs2 = "fs\<lparr>root := store (root fs) ?loc (File (apply_umask fs 438) (Bytes []))\<rparr>"
  have j: "filepath_Join [t, h_Name h] = n"
    using Join_dotdot [OF t n] name by simp
  have ep: "ensure_parent fs n = fs"
    using n Stat_dot [OF cwd] by (simp add: ensure_parent_def Dir_plain plain_name_def)
  have cr: "os_Create fs n = Inr (?fs2, ?loc)"
    using namei_plain [OF n cwd] free by (simp add: os_Create_def)
  have l2: "lookup (root ?fs2) ?loc = Some (File (apply_umask fs 438) (Bytes []))"
    using free cwd by (simp add: lookup_store_new)
  from t have tn: "t \<noteq> []" by (simp add: plain_name_def)
  have u: "Unarchive fs source t = (write_file ?fs2 ?loc d, None)"
    using rd nd tn j ep cr by (simp add: Unarchive_def zip_File_Open_def Let_def)
  have a: "lookup (root (write_file ?fs2 ?loc d)) ?loc = Some (File (apply_umask fs 438) d)"
    using l2 by (rule write_file_lookup)
  have b: "lookup (root (write_file ?fs2 ?loc d)) (cwd fs @ [t]) = lookup (root fs) (cwd fs @ [t])"
    using l2 nt by (simp add: write_file_def lookup_store_sibling)
  from j u a b show ?thesis by simp
qed

text \<open>The theorem at the entry \<open>../evil.txt\<close> and the target \<open>t\<close>.\<close>

theorem Unarchive_dotdot_escapes_witness:
  "filepath_Join [''t'', ''../evil.txt''] = ''evil.txt''
   \<and> snd (Unarchive fs_evil ''evil.zip'' ''t'') = None
   \<and> (\<exists>m'. lookup (root (fst (Unarchive fs_evil ''evil.zip'' ''t''))) [''w'', ''evil.txt'']
          = Some (File m' (Bytes ''x'')))
   \<and> lookup (root (fst (Unarchive fs_evil ''evil.zip'' ''t''))) [''w'', ''t''] = Some (Dir 493 [])"
proof -
  let ?h = "\<lparr>h_Name = ''../evil.txt'', h_perm = 420, h_dir = False, h_Method = Deflate\<rparr>"
  have 1: "plain_name ''evil.txt''" and 2: "plain_name ''t''" and 3: "''evil.txt'' \<noteq> ''t''"
    by (simp_all add: plain_name_def Separator_def)
  have 4: "lookup (root fs_evil) (cwd fs_evil) =
      Some (Dir 493 [(''evil.zip'', File 420 (Zip [(?h, Bytes ''x'')])), (''t'', Dir 493 [])])"
    by (simp add: fs_evil_def in_w_def)
  have 5: "lookup (root fs_evil) (cwd fs_evil @ [''evil.txt'']) = None"
    by (simp add: fs_evil_def in_w_def)
  have 6: "zip_OpenReader fs_evil ''evil.zip'' = Inr [(?h, Bytes ''x'')]"
    by (simp add: fs_evil_def path_defs os_defs zip_defs)
  have 7: "h_Name ?h = ''../'' @ ''evil.txt''" and 8: "\<not> header_IsDir ?h"
    by (simp_all add: header_IsDir_def strings_HasSuffix_def)
  have 9: "cwd fs_evil = [''w'']" and 10: "lookup (root fs_evil) [''w'', ''t''] = Some (Dir 493 [])"
    by (simp_all add: fs_evil_def in_w_def)
  from Unarchive_dotdot_escapes [OF 1 2 3 4 5 6 7 8] show ?thesis
    by (simp add: 9 10)
qed

section \<open>Download\<close>

text \<open>A source that \<^verbatim>\<open>url.ParseRequestURI\<close> rejects: nothing is requested or created.\<close>

lemma Download_rejected:
  assumes "url_ParseRequestURI hier source = Inl err"
  shows "Download hier transport fs source target = (fs, Some err)"
  using assms by (simp add: Download_def)

lemma url_ParseRequestURI_error:
  "url_ParseRequestURI hier source = Inl err \<Longrightarrow> \<exists>msg. err = UrlError ''parse'' source msg"
  by (auto simp: url_ParseRequestURI_def Let_def split: if_splits sum.splits option.splits)

lemmas url_defs =
  url_ParseRequestURI_def getScheme_def is_CTL_def is_letter_def is_scheme_mark_def
  strings_HasPrefix_def

lemmas http_defs =
  http_Get_def is_http_scheme_def lower_code_def url_authority_def after_scheme_def
  has_authority_def http_URI_def

lemma Download_not_a_url:
  "Download hier transport fs ''not-a-url'' ''/tmp/out.zip''
     = (fs, Some (UrlError ''parse'' ''not-a-url'' ''invalid URI for request''))"
  by (simp add: Download_def url_defs)

text \<open>
  A source that \<^verbatim>\<open>url.ParseRequestURI\<close> accepts and that is no HTTP URL: the request
  is refused for its scheme, and nothing is created.
\<close>

lemma Download_mailto:
  "url_ParseRequestURI hier ''mailto:x'' = Inr ()
   \<and> Download hier transport fs ''mailto:x'' target
       = (fs, Some (UrlError ''Get'' ''mailto:x'' ''unsupported protocol scheme''))"
  by (simp add: Download_def http_defs url_defs)

text \<open>
  A source that is an HTTP URL, with a network that delivers a body: the target is
  created and holds the body.
\<close>

lemma Download_http_source:
  "http_URI ''http://example.com/a.zip''
   \<and> Download (\<lambda>scheme rest. None) (\<lambda>url. Inr (Bytes ''zip'')) fs_hello
       ''http://example.com/a.zip'' ''out.zip''
     = (in_w [(''a'', Dir 493 [(''b.txt'', File 420 (Bytes ''hello''))]),
              (''out.zip'', File 420 (Bytes ''zip''))], None)"
  by (simp add: Download_def http_defs url_defs fs_hello_def path_defs os_defs in_w_def)

text \<open>The scheme that \<^verbatim>\<open>getScheme\<close> returns is the text before the first colon.\<close>

lemma getScheme_loop_split:
  "getScheme_loop raw seen cs = Inr (s, r) \<Longrightarrow> s \<noteq> [] \<Longrightarrow>
   \<exists>pre. cs = pre @ CHR '':'' # r \<and> s = seen @ pre"
proof (induction cs arbitrary: seen)
  case Nil
  then show ?case by simp
next
  case (Cons c cs)
  show ?case
  proof (cases "is_letter c \<or> (is_scheme_mark c \<and> seen \<noteq> [])")
    case True
    then have "getScheme_loop raw (seen @ [c]) cs = Inr (s, r)"
      using Cons.prems(1) by (auto split: if_splits)
    from Cons.IH [OF this Cons.prems(2)] obtain pre where
      "cs = pre @ CHR '':'' # r" "s = (seen @ [c]) @ pre" by blast
    then have "c # cs = (c # pre) @ CHR '':'' # r \<and> s = seen @ (c # pre)" by simp
    then show ?thesis by blast
  next
    case False
    then have "c = CHR '':'' \<and> s = seen \<and> r = cs"
      using Cons.prems by (auto split: if_splits)
    then show ?thesis by simp
  qed
qed

lemma getScheme_split:
  assumes "getScheme u = Inr (s, r)" and "s \<noteq> []"
  shows "u = s @ CHR '':'' # r"
  using getScheme_loop_split [of u "[]" u s r] assms by (auto simp: getScheme_def)

text \<open>A source with the scheme of HTTP and an authority is an HTTP(S) URI.\<close>

lemma lower_code_colon: "lower_code c = lower_code CHR ''s'' \<Longrightarrow> c \<noteq> CHR '':''"
  by (auto simp: lower_code_def)

lemma http_URI_start:
  assumes "is_http_scheme scheme" and "c \<noteq> CHR ''/''" and "c \<noteq> CHR ''?''" and "c \<noteq> CHR ''#''"
  shows "http_URI (scheme @ CHR '':'' # CHR ''/'' # CHR ''/'' # c # t)"
proof -
  from assms(1) consider
    (http) "map lower_code scheme = map lower_code ''http''"
    | (https) "map lower_code scheme = map lower_code ''https''"
    by (auto simp: is_http_scheme_def)
  then show ?thesis
  proof cases
    case http
    then have "length scheme = 4" using map_eq_imp_length_eq [OF http] by simp
    then have "after_scheme ''http'' (scheme @ CHR '':'' # CHR ''/'' # CHR ''/'' # c # t)
                 = Some (c # t)"
      using http by (simp add: after_scheme_def strings_HasPrefix_def)
    then show ?thesis using assms by (simp add: http_URI_def has_authority_def)
  next
    case https
    then have l: "length scheme = 5" using map_eq_imp_length_eq [OF https] by simp
    then obtain a b d e f where s: "scheme = [a, b, d, e, f]"
      by (auto simp: length_Suc_conv eval_nat_numeral)
    then have "lower_code f = lower_code CHR ''s''" using https by simp
    then have "f \<noteq> CHR '':''" by (rule lower_code_colon)
    then have n: "after_scheme ''http'' (scheme @ CHR '':'' # CHR ''/'' # CHR ''/'' # c # t) = None"
      using s by (simp add: after_scheme_def strings_HasPrefix_def)
    have "after_scheme ''https'' (scheme @ CHR '':'' # CHR ''/'' # CHR ''/'' # c # t)
            = Some (c # t)"
      using https l by (simp add: after_scheme_def strings_HasPrefix_def)
    then show ?thesis using n assms by (simp add: http_URI_def has_authority_def)
  qed
qed

lemma url_authority_start:
  assumes "url_authority (takeWhile (\<lambda>c. c \<noteq> CHR ''?'') rest) \<noteq> []"
  shows "\<exists>c t. rest = CHR ''/'' # CHR ''/'' # c # t \<and> c \<noteq> CHR ''/'' \<and> c \<noteq> CHR ''?''"
proof -
  let ?r = "takeWhile (\<lambda>c. c \<noteq> CHR ''?'') rest"
  from assms have p: "strings_HasPrefix ?r ''//''"
    and a: "takeWhile (\<lambda>c. c \<noteq> CHR ''/'') (drop 2 ?r) \<noteq> []"
    by (auto simp: url_authority_def split: if_splits)
  from p obtain r2 where r: "rest = CHR ''/'' # CHR ''/'' # r2"
    by (cases rest; cases "tl rest") (auto simp: strings_HasPrefix_def split: if_splits)
  with a obtain c t where "r2 = c # t" "c \<noteq> CHR ''/''" "c \<noteq> CHR ''?''"
    by (cases r2) (auto split: if_splits)
  with r show ?thesis by simp
qed

text \<open>\<^verbatim>\<open>http.Get\<close> refuses every URL that is no HTTP(S) URI, without a request.\<close>

lemma http_Get_refuses:
  assumes "\<not> http_URI url"
  shows "\<exists>op name msg. http_Get transport url = Inl (UrlError op name msg)"
proof -
  let ?u = "takeWhile (\<lambda>c. c \<noteq> CHR ''#'') url"
  show ?thesis
  proof (cases "getScheme ?u")
    case (Inl msg)
    then show ?thesis by (simp add: http_Get_def Let_def)
  next
    case (Inr p)
    obtain scheme rest where p: "p = (scheme, rest)" by (cases p)
    show ?thesis
    proof (cases "is_http_scheme scheme
        \<and> url_authority (takeWhile (\<lambda>c. c \<noteq> CHR ''?'') rest) \<noteq> []")
      case False
      then show ?thesis using Inr p by (auto simp: http_Get_def Let_def)
    next
      case True
      then have "scheme \<noteq> []" by (auto simp: is_http_scheme_def)
      with Inr p have u: "?u = scheme @ CHR '':'' # rest" by (simp add: getScheme_split)
      from True obtain c t where
        r: "rest = CHR ''/'' # CHR ''/'' # c # t" "c \<noteq> CHR ''/''" "c \<noteq> CHR ''?''"
        using url_authority_start by blast
      have "c \<in> set ?u" using u r by simp
      then have h: "c \<noteq> CHR ''#''" by (auto dest: set_takeWhileD)
      have "url = ?u @ dropWhile (\<lambda>c. c \<noteq> CHR ''#'') url" by simp
      then have "url = scheme @ CHR '':'' # CHR ''/'' # CHR ''/'' # c
                         # (t @ dropWhile (\<lambda>c. c \<noteq> CHR ''#'') url)"
        using u r by simp
      then have "http_URI url"
        using http_URI_start [OF _ r(2,3) h, of scheme] True by metis
      with assms show ?thesis by simp
    qed
  qed
qed

text \<open>
  Claim C9.  \<^verbatim>\<open>Download\<close> goes on to the network and to the target only for a source
  that \<^verbatim>\<open>url.ParseRequestURI\<close> accepts (a syntactically valid absolute URI) and that
  is an HTTP(S) URI.  Every other source is rejected: for every network and every
  file system \<^verbatim>\<open>Download\<close> returns an error, a \<^verbatim>\<open>*url.Error\<close> (Go has no kind
  \<^verbatim>\<open>InvalidArgument\<close>; this is the error with which the argument is refused), and the
  file system is as before, so no target was created.  The error is returned on line
  29 when \<^verbatim>\<open>url.ParseRequestURI\<close> rejects the source, and otherwise on line 35:
  \<^verbatim>\<open>http.Get\<close> (line 33) refuses the URL, before line 40 creates the target.
\<close>

theorem Download_rejects_source:
  assumes "\<not> (url_ParseRequestURI hier source = Inr () \<and> http_URI source)"
  shows "\<exists>op name msg.
           Download hier transport fs source target = (fs, Some (UrlError op name msg))"
proof (cases "url_ParseRequestURI hier source")
  case (Inl err)
  then show ?thesis using url_ParseRequestURI_error [OF Inl] by (auto simp: Download_def)
next
  case (Inr u)
  then have "\<not> http_URI source" using assms by simp
  from http_Get_refuses [OF this, of transport] obtain op name msg where
    "http_Get transport source = Inl (UrlError op name msg)" by blast
  then show ?thesis using Inr by (simp add: Download_def)
qed

text \<open>
  The theorem at the two sources of the claim, with a network that would deliver a
  body: \<open>not-a-url\<close>, which \<^verbatim>\<open>url.ParseRequestURI\<close> rejects, and \<open>mailto:x\<close>, which it
  accepts and which is no HTTP(S) URI.
\<close>

theorem Download_rejects_source_witness:
  "url_ParseRequestURI (\<lambda>scheme rest. None) ''not-a-url''
     = Inl (UrlError ''parse'' ''not-a-url'' ''invalid URI for request'')
   \<and> (\<exists>op name msg.
         Download (\<lambda>scheme rest. None) (\<lambda>url. Inr (Bytes ''zip'')) fs_hello
           ''not-a-url'' ''/tmp/out.zip'' = (fs_hello, Some (UrlError op name msg)))
   \<and> url_ParseRequestURI (\<lambda>scheme rest. None) ''mailto:x'' = Inr ()
   \<and> http_URI ''mailto:x'' = False
   \<and> (\<exists>op name msg.
         Download (\<lambda>scheme rest. None) (\<lambda>url. Inr (Bytes ''zip'')) fs_hello
           ''mailto:x'' ''/tmp/out.zip'' = (fs_hello, Some (UrlError op name msg)))"
proof -
  let ?hier = "\<lambda>scheme rest. None :: string option"
  let ?transport = "\<lambda>url. Inr (Bytes ''zip'') :: error + fdata"
  have a: "url_ParseRequestURI ?hier ''not-a-url''
             = Inl (UrlError ''parse'' ''not-a-url'' ''invalid URI for request'')"
    by (simp add: url_defs)
  have b: "url_ParseRequestURI ?hier ''mailto:x'' = Inr ()" by (simp add: url_defs)
  have c: "http_URI ''mailto:x'' = False" by (simp add: http_defs url_defs)
  have 1: "\<not> (url_ParseRequestURI ?hier ''not-a-url'' = Inr () \<and> http_URI ''not-a-url'')"
    using a by simp
  have 2: "\<not> (url_ParseRequestURI ?hier ''mailto:x'' = Inr () \<and> http_URI ''mailto:x'')"
    using c by simp
  note Download_rejects_source [OF 1, of ?transport fs_hello "''/tmp/out.zip''"]
    Download_rejects_source [OF 2, of ?transport fs_hello "''/tmp/out.zip''"]
  with a b c show ?thesis by blast
qed

end
